theory Spec2Isabelle
  imports Complex_Main "HOL-Library.Sublist" "HOL-Library.AList"
begin

section \<open>Data model\<close>

text \<open>
  The analytics pipeline of \<^verbatim>\<open>cogs/graphs.py\<close>. Python integers are \<open>int\<close>; the result
  of Python's true division \<^verbatim>\<open>/\<close> is modelled as the exact quotient in \<open>rat\<close>. Exceptions
  are values of \<open>error\<close>, and a function that can raise returns \<open>error + 'a\<close>.
\<close>

datatype error =
  IndexError | KeyError | ValueError | ZeroDivisionError | AssertionError | GraphCogError

text \<open>The fields of a rating change that the module reads.\<close>

record RatingChange =
  contestId :: int
  ratingUpdateTimeSeconds :: int
  oldRating :: int
  newRating :: int

section \<open>Peak rating: \<^verbatim>\<open>max_prefix\<close>\<close>

text \<open>
  One iteration of the loop body of \<^verbatim>\<open>max_prefix\<close> on the loop state \<open>(max_rate, res)\<close>.
\<close>

definition max_prefix_step ::
  "int \<times> RatingChange list \<Rightarrow> RatingChange \<Rightarrow> int \<times> RatingChange list" where
  "max_prefix_step st data =
     (case st of (max_rate, res) \<Rightarrow>
        let old_rating = oldRating data;
            old_rating = (if old_rating = 0 then 1500 else old_rating)
        in if newRating data - old_rating \<ge> 0 \<and> newRating data \<ge> max_rate
           then (newRating data, res @ [data])
           else (max_rate, res))"

definition max_prefix :: "RatingChange list \<Rightarrow> RatingChange list" where
  "max_prefix user = snd (foldl max_prefix_step (0, []) user)"

text \<open>
  The scan as the specification words it: a change is kept iff it is no decrease from the
  effective old rating and reaches the running maximum.
\<close>

definition effective_old_rating :: "RatingChange \<Rightarrow> int" where
  "effective_old_rating c = (if oldRating c = 0 then 1500 else oldRating c)"

fun peak_scan :: "int \<Rightarrow> RatingChange list \<Rightarrow> RatingChange list" where
  "peak_scan max_rate [] = []"
| "peak_scan max_rate (c # cs) =
     (if newRating c - effective_old_rating c \<ge> 0 \<and> newRating c \<ge> max_rate
      then c # peak_scan (newRating c) cs
      else peak_scan max_rate cs)"

definition peak_prefix_spec :: "RatingChange list \<Rightarrow> RatingChange list" where
  "peak_prefix_spec cs = peak_scan 0 cs"

definition mk_change :: "int \<Rightarrow> int \<Rightarrow> int \<Rightarrow> int \<Rightarrow> RatingChange" where
  "mk_change c t old new =
     \<lparr>contestId = c, ratingUpdateTimeSeconds = t, oldRating = old, newRating = new\<rparr>"

section \<open>Python lists\<close>

text \<open>
  Reading and writing a list at an integer index as Python does: a negative index counts
  from the end, and an index outside the list raises \<open>IndexError\<close>.
\<close>

definition py_get :: "'a list \<Rightarrow> int \<Rightarrow> error + 'a" where
  "py_get xs i =
     (let n = int (length xs); j = (if i < 0 then i + n else i)
      in if 0 \<le> j \<and> j < n then Inr (xs ! nat j) else Inl IndexError)"

definition py_set :: "'a list \<Rightarrow> int \<Rightarrow> 'a \<Rightarrow> error + 'a list" where
  "py_set xs i v =
     (let n = int (length xs); j = (if i < 0 then i + n else i)
      in if 0 \<le> j \<and> j < n then Inr (xs[nat j := v]) else Inl IndexError)"

section \<open>Running mean: \<^verbatim>\<open>_running_mean\<close> and \<^verbatim>\<open>_plot_average\<close>\<close>

text \<open>
  The first loop of \<^verbatim>\<open>_running_mean\<close> fills the prefix sums; its indices \<open>i\<close> and
  \<open>i + 1\<close> are in range by construction of \<open>cum_sum\<close>.
\<close>

definition cum_sum_loop :: "rat list \<Rightarrow> rat list" where
  "cum_sum_loop x =
     fold (\<lambda>i cum_sum. cum_sum[Suc i := x ! i + cum_sum ! i])
          [0..<length x] (replicate (length x + 1) 0)"

text \<open>
  The body of the second loop: both reads of \<open>cum_sum\<close>, then the division, then the
  write to \<open>res\<close>, each of which can raise.
\<close>

definition mean_step :: "rat list \<Rightarrow> int \<Rightarrow> int \<Rightarrow> rat list \<Rightarrow> error + rat list" where
  "mean_step cum_sum bin_size i res =
     (case py_get cum_sum i of
        Inl e \<Rightarrow> Inl e
      | Inr a \<Rightarrow>
          (case py_get cum_sum (i - bin_size) of
             Inl e \<Rightarrow> Inl e
           | Inr b \<Rightarrow>
               if bin_size = 0 then Inl ZeroDivisionError
               else py_set res (i - bin_size) ((a - b) / of_int bin_size)))"

fun mean_loop :: "rat list \<Rightarrow> int \<Rightarrow> int list \<Rightarrow> rat list \<Rightarrow> error + rat list" where
  "mean_loop cum_sum bin_size [] res = Inr res"
| "mean_loop cum_sum bin_size (i # rest) res =
     (case mean_step cum_sum bin_size i res of
        Inl e \<Rightarrow> Inl e
      | Inr res' \<Rightarrow> mean_loop cum_sum bin_size rest res')"

text \<open>
  \<^verbatim>\<open>range(bin_size, n + 1)\<close> is the integer interval \<open>[bin_size..n]\<close>, and
  \<^verbatim>\<open>[0] * k\<close> is empty for \<open>k \<le> 0\<close>.
\<close>

definition running_mean :: "rat list \<Rightarrow> int \<Rightarrow> error + rat list" where
  "running_mean x bin_size =
     (let n = int (length x);
          cum_sum = cum_sum_loop x;
          res = replicate (nat (n - bin_size + 1)) 0
      in mean_loop cum_sum bin_size [bin_size..n] res)"

text \<open>
  \<^verbatim>\<open>_plot_average\<close> on a series of (time, rating) pairs. A time is modelled by its epoch
  timestamp, so that \<^verbatim>\<open>timestamp()\<close> and \<^verbatim>\<open>fromtimestamp\<close> are the identity. The value is
  the sequence of points handed to \<^verbatim>\<open>plt.plot\<close>; when the guard fails nothing is drawn, which
  is the empty sequence of points. Unpacking \<^verbatim>\<open>zip(*practice)\<close> of an empty series raises
  \<open>ValueError\<close>.
\<close>

definition plot_average :: "(rat \<times> rat) list \<Rightarrow> int \<Rightarrow> error + (rat \<times> rat) list" where
  "plot_average practice bin_size =
     (if int (length practice) > bin_size then
        if practice = [] then Inl ValueError
        else
          let sub_timestamps = map fst practice; ratings = map snd practice
          in (case running_mean sub_timestamps bin_size of
                Inl e \<Rightarrow> Inl e
              | Inr mean_sub_times \<Rightarrow>
                  (case running_mean ratings bin_size of
                     Inl e \<Rightarrow> Inl e
                   | Inr mean_ratings \<Rightarrow> Inr (zip mean_sub_times mean_ratings)))
      else Inr [])"

text \<open>
  The plain sliding-window average of the specification: element \<open>i\<close> is the arithmetic mean
  of the \<open>w\<close> elements starting at \<open>i\<close>.
\<close>

definition window_mean :: "rat list \<Rightarrow> nat \<Rightarrow> nat \<Rightarrow> rat" where
  "window_mean x w i = sum_list (take w (drop i x)) / of_nat w"

definition naive_mean :: "rat list \<Rightarrow> nat \<Rightarrow> rat list" where
  "naive_mean x w = map (window_mean x w) [0..<length x + 1 - w]"

text \<open>
  The write one iteration of the second loop performs when every index is in range; used to
  state the loop's result.
\<close>

definition mean_write :: "rat list \<Rightarrow> int \<Rightarrow> int \<Rightarrow> rat list \<Rightarrow> rat list" where
  "mean_write cs w i res = res[nat (i - w) := (cs ! nat i - cs ! nat (i - w)) / of_int w]"

section \<open>Submission classifier: \<^verbatim>\<open>_classify_submissions\<close>\<close>

text \<open>
  The fields of a submission that the module reads; \<open>participantType\<close> is the source's
  \<^verbatim>\<open>submission.author.participantType\<close>.
\<close>

record Submission =
  submission_id :: int
  creationTimeSeconds :: int
  participantType :: string

text \<open>
  The tuple \<^verbatim>\<open>cf.Party.PARTICIPANT_TYPES\<close> is declared outside this module and is a parameter
  here. The dict comprehension maps every type of the tuple to an empty list.
\<close>

definition init_solved_by_type :: "string list \<Rightarrow> (string \<rightharpoonup> Submission list)" where
  "init_solved_by_type PARTICIPANT_TYPES =
     fold (\<lambda>sub_type d. d(sub_type \<mapsto> [])) PARTICIPANT_TYPES Map.empty"

text \<open>
  One iteration: \<^verbatim>\<open>solved_by_type[...]\<close> raises \<open>KeyError\<close> on a missing key; otherwise the
  submission is appended to that key's list.
\<close>

definition classify_step ::
  "(string \<rightharpoonup> Submission list) \<Rightarrow> Submission \<Rightarrow> error + (string \<rightharpoonup> Submission list)" where
  "classify_step solved_by_type submission =
     (case solved_by_type (participantType submission) of
        None \<Rightarrow> Inl KeyError
      | Some subs \<Rightarrow> Inr (solved_by_type(participantType submission \<mapsto> subs @ [submission])))"

fun classify_loop ::
  "(string \<rightharpoonup> Submission list) \<Rightarrow> Submission list \<Rightarrow> error + (string \<rightharpoonup> Submission list)" where
  "classify_loop solved_by_type [] = Inr solved_by_type"
| "classify_loop solved_by_type (submission # rest) =
     (case classify_step solved_by_type submission of
        Inl e \<Rightarrow> Inl e
      | Inr solved_by_type' \<Rightarrow> classify_loop solved_by_type' rest)"

definition classify_submissions ::
  "string list \<Rightarrow> Submission list \<Rightarrow> error + (string \<rightharpoonup> Submission list)" where
  "classify_submissions PARTICIPANT_TYPES submissions =
     classify_loop (init_solved_by_type PARTICIPANT_TYPES) submissions"

text \<open>
  Modelled from the spec: the four participation types it lists for a submission, in place of
  the tuple \<^verbatim>\<open>cf.Party.PARTICIPANT_TYPES\<close> that this module imports.
\<close>

definition known_types :: "string list" where
  "known_types = [''CONTESTANT'', ''OUT_OF_COMPETITION'', ''VIRTUAL'', ''PRACTICE'']"

definition mk_sub :: "int \<Rightarrow> int \<Rightarrow> string \<Rightarrow> Submission" where
  "mk_sub i t p = \<lparr>submission_id = i, creationTimeSeconds = t, participantType = p\<rparr>"

text \<open>
  The dictionary after a run without error: every list extended by the submissions of its
  type, in input order.
\<close>

definition extend_by ::
  "(string \<rightharpoonup> Submission list) \<Rightarrow> Submission list \<Rightarrow> (string \<rightharpoonup> Submission list)" where
  "extend_by d subs =
     (\<lambda>t. case d t of None \<Rightarrow> None
          | Some l \<Rightarrow> Some (l @ filter (\<lambda>s. participantType s = t) subs))"

section \<open>Percentiles: \<^verbatim>\<open>centile\<close>\<close>

text \<open>
  \<^verbatim>\<open>bisect.bisect_left\<close> of the Python standard library, as CPython writes it: a binary search
  on the half-open index range \<open>[lo, hi)\<close>, starting from the whole list.
\<close>

function bisect_left_loop :: "int list \<Rightarrow> int \<Rightarrow> nat \<Rightarrow> nat \<Rightarrow> nat" where
  "bisect_left_loop a x lo hi =
     (if lo < hi then
        let mid = (lo + hi) div 2
        in if a ! mid < x then bisect_left_loop a x (mid + 1) hi
           else bisect_left_loop a x lo mid
      else lo)"
  by pat_completeness auto
termination
  by (relation "measure (\<lambda>(a, x, lo, hi). hi - lo)") auto

declare bisect_left_loop.simps [simp del]

definition bisect_left :: "int list \<Rightarrow> int \<Rightarrow> nat" where
  "bisect_left a x = bisect_left_loop a x 0 (length a)"

text \<open>
  The curve: the population sorted, and \<^verbatim>\<open>100*np.arange(n)/n\<close>, an array of \<open>n\<close> quotients
  (for \<open>n = 0\<close> numpy divides an empty array and raises nothing).
\<close>

definition percentile_curve :: "int list \<Rightarrow> int list \<times> rat list" where
  "percentile_curve all_ratings =
     (let ratings = sort all_ratings;
          n = length ratings;
          perc = map (\<lambda>i. 100 * of_nat i / of_nat n) [0..<n]
      in (ratings, perc))"

text \<open>
  The percentile of one rating: the two statements \<^verbatim>\<open>ix = bisect.bisect_left(ratings, info.rating)\<close>
  and \<^verbatim>\<open>cent = 100*ix/len(ratings)\<close>; the division of Python integers raises
  \<open>ZeroDivisionError\<close> for an empty population.
\<close>

definition percentile_of :: "int list \<Rightarrow> int \<Rightarrow> error + rat" where
  "percentile_of ratings rating =
     (let ix = bisect_left ratings rating
      in if length ratings = 0 then Inl ZeroDivisionError
         else Inr (100 * of_nat ix / of_nat (length ratings)))"

text \<open>The fields of a user record that \<^verbatim>\<open>centile\<close> reads.\<close>

record User =
  handle :: string
  rating :: "int option"

text \<open>
  The loop over \<^verbatim>\<open>infos\<close> filling the dictionary \<^verbatim>\<open>users_to_mark\<close>, kept as an association
  list in insertion order.
\<close>

fun mark_users ::
  "int list \<Rightarrow> User list \<Rightarrow> (string \<times> int \<times> rat) list \<Rightarrow> error + (string \<times> int \<times> rat) list" where
  "mark_users ratings [] users_to_mark = Inr users_to_mark"
| "mark_users ratings (info # infos) users_to_mark =
     (case rating info of
        None \<Rightarrow> Inl GraphCogError
      | Some r \<Rightarrow>
          (case percentile_of ratings r of
             Inl e \<Rightarrow> Inl e
           | Inr cent \<Rightarrow>
               mark_users ratings infos (AList.update (handle info) (r, cent) users_to_mark)))"

text \<open>
  The horizontal limits of the plot: around the marked users when zooming (the factor
  \<^verbatim>\<open>0.1\<close> as the rational 1/10), otherwise from \<^verbatim>\<open>ratings[0]\<close> to \<^verbatim>\<open>ratings[-1]\<close>, which
  raises \<open>IndexError\<close> on an empty array.
\<close>

definition centile_xlim ::
  "int list \<Rightarrow> (string \<times> int \<times> rat) list \<Rightarrow> bool \<Rightarrow> error + rat \<times> rat" where
  "centile_xlim ratings users_to_mark zoom =
     (if users_to_mark \<noteq> [] \<and> zoom then
        let points = map (\<lambda>(user, point). of_int (fst point)) users_to_mark;
            xmin = fold min (tl points) (hd points);
            xmax = fold max (tl points) (hd points);
            xmargin = max 20 ((xmax - xmin) * (1 / 10))
        in Inr (xmin - xmargin, xmax + xmargin)
      else
        (case py_get ratings 0 of
           Inl e \<Rightarrow> Inl e
         | Inr xmin \<Rightarrow>
             (case py_get ratings (- 1) of
                Inl e \<Rightarrow> Inl e
              | Inr xmax \<Rightarrow> Inr (of_int xmin, of_int xmax))))"

text \<open>
  The data part of the command \<^verbatim>\<open>centile\<close>, in source order: the curve, then the marked
  users unless \<^verbatim>\<open>+nomarker\<close> is given, then the limits. \<open>all_ratings\<close> is the cached
  population and \<open>infos\<close> the user records fetched for the handles.
\<close>

definition centile ::
  "int list \<Rightarrow> bool \<Rightarrow> bool \<Rightarrow> User list \<Rightarrow>
   error + (int list \<times> rat list) \<times> (string \<times> int \<times> rat) list \<times> (rat \<times> rat)" where
  "centile all_ratings zoom nomarker infos =
     (let (ratings, perc) = percentile_curve all_ratings
      in case (if \<not> nomarker then mark_users ratings infos [] else Inr []) of
           Inl e \<Rightarrow> Inl e
         | Inr users_to_mark \<Rightarrow>
             (case centile_xlim ratings users_to_mark zoom of
                Inl e \<Rightarrow> Inl e
              | Inr xlim \<Rightarrow> Inr ((ratings, perc), users_to_mark, xlim)))"

section \<open>Rating histogram: \<^verbatim>\<open>_rating_hist\<close>\<close>

text \<open>
  A slice \<^verbatim>\<open>xs[i:j]\<close> as Python takes it: negative bounds count from the end and both bounds
  are clamped to the list; it never raises.
\<close>

definition py_slice :: "'a list \<Rightarrow> int \<Rightarrow> int \<Rightarrow> 'a list" where
  "py_slice xs i j =
     (let n = int (length xs);
          i' = max 0 (min n (if i < 0 then i + n else i));
          j' = max 0 (min n (if j < 0 then j + n else j))
      in drop (nat i') (take (nat j') xs))"

text \<open>
  \<^verbatim>\<open>range(start, stop, step)\<close> for a step other than 0 (a step of 0 never reaches the range
  in \<^verbatim>\<open>_rating_hist\<close>, which has divided by it before).
\<close>

definition py_range :: "int \<Rightarrow> int \<Rightarrow> int \<Rightarrow> int list" where
  "py_range start stop step =
     (if step > 0 then
        map (\<lambda>k. start + int k * step) [0..<nat ((stop - start + step - 1) div step)]
      else if step < 0 then
        map (\<lambda>k. start + int k * step) [0..<nat ((start - stop - step - 1) div (- step))]
      else [])"

text \<open>
  Python's \<^verbatim>\<open>round\<close> to an integer, on an exact quotient: to the nearest integer, a tie going
  to the even one.
\<close>

definition py_round :: "rat \<Rightarrow> int" where
  "py_round q =
     (let f = \<lfloor>q\<rfloor>; d = q - of_int f
      in if d < 1 / 2 then f
         else if d > 1 / 2 then f + 1
         else if even f then f else f + 1)"

text \<open>
  A rank of the table \<^verbatim>\<open>cf.RATED_RANKS\<close>, which is declared outside this module and is a
  parameter here; a colour is kept as the integer \<open>color_embed\<close> that the source formats.
\<close>

record Rank =
  low :: int
  high :: int
  color_embed :: int

text \<open>
  What \<^verbatim>\<open>_rating_hist\<close> hands to the chart: the bars with their colours and labels, the
  scale and the limits (the bar width \<^verbatim>\<open>binsize*0.9\<close> is left out).
\<close>

record hist_plot =
  bar_x :: "int list"
  bar_height :: "int list"
  bar_colors :: "int list"
  bar_label :: "(int \<times> int) list"
  bar_log :: bool
  bar_xlim :: "int \<times> int"

text \<open>The colour loop: one colour per bin of each rank's part of \<open>[lo, hi)\<close>.\<close>

definition hist_colors :: "Rank list \<Rightarrow> int \<Rightarrow> int \<Rightarrow> int \<Rightarrow> int list" where
  "hist_colors RATED_RANKS lo hi binsize =
     concat (map (\<lambda>rank. map (\<lambda>r. color_embed rank)
                            (py_range (max (low rank) lo) (min (high rank) hi) binsize))
                 RATED_RANKS)"

text \<open>The counting loop: \<^verbatim>\<open>height[r // binsize] += 1\<close> reads, then writes, that index.\<close>

definition height_step :: "int \<Rightarrow> int list \<Rightarrow> int \<Rightarrow> error + int list" where
  "height_step binsize height r =
     (case py_get height (r div binsize) of
        Inl e \<Rightarrow> Inl e
      | Inr h \<Rightarrow> py_set height (r div binsize) (h + 1))"

fun height_loop :: "int \<Rightarrow> int list \<Rightarrow> int list \<Rightarrow> error + int list" where
  "height_loop binsize height [] = Inr height"
| "height_loop binsize height (r # ratings) =
     (case height_step binsize height r of
        Inl e \<Rightarrow> Inl e
      | Inr height' \<Rightarrow> height_loop binsize height' ratings)"

text \<open>
  The cumulative loop: \<^verbatim>\<open>csum += h\<close> and \<^verbatim>\<open>cent.append(round(100 * csum / users))\<close>, where
  the division raises for \<open>users = 0\<close>.
\<close>

fun cent_loop :: "int \<Rightarrow> int list \<Rightarrow> int \<Rightarrow> int list \<Rightarrow> error + int list" where
  "cent_loop users [] csum cent = Inr cent"
| "cent_loop users (h # rest) csum cent =
     (if users = 0 then Inl ZeroDivisionError
      else cent_loop users rest (csum + h)
             (cent @ [py_round (100 * of_int (csum + h) / of_int users)]))"

text \<open>
  Trimming the empty ends: \<^verbatim>\<open>while not height[l]: l += 1\<close> and
  \<^verbatim>\<open>while not height[r]: r -= 1\<close>.
\<close>

function trim_left :: "int list \<Rightarrow> int \<Rightarrow> error + int" where
  "trim_left height l =
     (case py_get height l of
        Inl e \<Rightarrow> Inl e
      | Inr h \<Rightarrow> if h = 0 then trim_left height (l + 1) else Inr l)"
  by pat_completeness auto
termination
  by (relation "measure (\<lambda>(height, l). nat (int (length height) - l))")
     (auto simp: py_get_def Let_def split: if_splits)

function trim_right :: "int list \<Rightarrow> int \<Rightarrow> error + int" where
  "trim_right height r =
     (case py_get height r of
        Inl e \<Rightarrow> Inl e
      | Inr h \<Rightarrow> if h = 0 then trim_right height (r - 1) else Inr r)"
  by pat_completeness auto
termination
  by (relation "measure (\<lambda>(height, r). nat (r + int (length height) + 1))")
     (auto simp: py_get_def Let_def split: if_splits)

declare trim_left.simps [simp del] trim_right.simps [simp del]

text \<open>
  \<^verbatim>\<open>_rating_hist\<close> up to the call of \<^verbatim>\<open>plt.bar\<close>. The chat context and the title do not
  enter the computation. \<^verbatim>\<open>100 % binsize\<close> raises for \<open>binsize = 0\<close>; \<^verbatim>\<open>range(bins)\<close> is
  \<open>[0..bins - 1]\<close>; a label is kept as the pair that the source formats.
\<close>

definition rating_hist :: "Rank list \<Rightarrow> int list \<Rightarrow> string \<Rightarrow> int \<Rightarrow> error + hist_plot" where
  "rating_hist RATED_RANKS ratings0 mode binsize =
     (if mode \<noteq> ''log'' \<and> mode \<noteq> ''normal'' then Inl GraphCogError
      else
        let ratings = filter (\<lambda>r. r \<ge> 0) ratings0
        in if ratings = [] then Inl AssertionError
           else if binsize = 0 then Inl ZeroDivisionError
           else if 100 mod binsize \<noteq> 0 then Inl AssertionError
           else
             let bins = 39 * 100 div binsize;
                 lo = 0;
                 hi = binsize * bins;
                 colors = hist_colors RATED_RANKS lo hi binsize
             in if int (length colors) \<noteq> bins then Inl AssertionError
                else
                  (case height_loop binsize (replicate (nat bins) 0) ratings of
                     Inl e \<Rightarrow> Inl e
                   | Inr height \<Rightarrow>
                       (case cent_loop (sum_list height) height 0 [0] of
                          Inl e \<Rightarrow> Inl e
                        | Inr cent \<Rightarrow>
                            let x = map (\<lambda>k. k * binsize) [0..bins - 1];
                                label = zip x cent
                            in (case trim_left height 0 of
                                  Inl e \<Rightarrow> Inl e
                                | Inr l \<Rightarrow>
                                    (case trim_right height (bins - 1) of
                                       Inl e \<Rightarrow> Inl e
                                     | Inr r \<Rightarrow>
                                         Inr \<lparr>bar_x = py_slice x l (r + 1),
                                              bar_height = py_slice height l (r + 1),
                                              bar_colors = py_slice colors l (r + 1),
                                              bar_label = py_slice label l (r + 1),
                                              bar_log = (mode = ''log''),
                                              bar_xlim = (l * binsize - binsize div 2,
                                                          r * binsize + binsize div 2)\<rparr>)))))"

text \<open>
  A rank table of the shape the module imports, for concrete evaluations: contiguous tiers
  that cover every rating.
\<close>

definition example_ranks :: "Rank list" where
  "example_ranks =
     [\<lparr>low = - 1000000000, high = 1200, color_embed = 8421504\<rparr>,
      \<lparr>low = 1200, high = 2400, color_embed = 32768\<rparr>,
      \<lparr>low = 2400, high = 1000000000, color_embed = 16711680\<rparr>]"

text \<open>
  The number of values in the half-open interval \<open>[lower, upper)\<close>, as the specification
  counts a bucket.
\<close>

definition bucket_count :: "int list \<Rightarrow> int \<Rightarrow> int \<Rightarrow> int" where
  "bucket_count vs lower upper = int (length (filter (\<lambda>v. lower \<le> v \<and> v < upper) vs))"

text \<open>The chart of the ratings 1000, 1050, 1100, 1100, 1500, -5 at bin width 100.\<close>

definition example_plot :: hist_plot where
  "example_plot =
     \<lparr>bar_x = [1000, 1100, 1200, 1300, 1400, 1500],
      bar_height = [2, 2, 0, 0, 0, 1],
      bar_colors = [8421504, 8421504, 32768, 32768, 32768, 32768],
      bar_label = [(1000, 0), (1100, 40), (1200, 80), (1300, 80), (1400, 80), (1500, 80)],
      bar_log = False, bar_xlim = (950, 1550)\<rparr>"

section \<open>Properties of \<^verbatim>\<open>max_prefix\<close>\<close>

lemma foldl_max_prefix_step:
  "snd (foldl max_prefix_step (m, res) cs) = res @ peak_scan m cs"
  by (induction cs arbitrary: m res)
     (simp_all add: max_prefix_step_def effective_old_rating_def Let_def)

lemma max_prefix_scan: "max_prefix cs = peak_scan 0 cs"
  by (simp add: max_prefix_def foldl_max_prefix_step)

lemma peak_scan_lower: "c \<in> set (peak_scan m cs) \<Longrightarrow> m \<le> newRating c"
proof (induction cs arbitrary: m)
  case Nil
  then show ?case by simp
next
  case (Cons a cs)
  then show ?case by (fastforce split: if_splits)
qed

lemma peak_scan_sorted: "sorted (map newRating (peak_scan m cs))"
  by (induction cs arbitrary: m) (auto dest: peak_scan_lower)

lemma peak_scan_subseq: "subseq (peak_scan m cs) cs"
  by (induction cs arbitrary: m) auto

text \<open>
  C1, as amended: peak-prefix extraction returns exactly the changes selected by the
  left-to-right scan with a running maximum starting at 0, keeping a change iff new rating
  minus effective old rating (1500 for an old rating of 0) is non-negative and the new rating
  reaches the running maximum. On the example (0,1400), (1400,1600), (1600,1550) the first
  change is a decrease from the substituted baseline 1500 and is dropped, the second is kept
  and the third is dropped.
\<close>

theorem max_prefix_is_scan:
  "max_prefix cs = peak_prefix_spec cs \<and>
   max_prefix [mk_change 1 100 0 1400, mk_change 2 200 1400 1600, mk_change 3 300 1600 1550]
     = [mk_change 2 200 1400 1600]"
  by (simp add: max_prefix_scan peak_prefix_spec_def effective_old_rating_def mk_change_def)

text \<open>
  C1 as stated fails on its own example: the output does not keep the first two changes.
\<close>

theorem max_prefix_example_counterexample:
  "max_prefix [mk_change 1 100 0 1400, mk_change 2 200 1400 1600, mk_change 3 300 1600 1550]
     \<noteq> [mk_change 1 100 0 1400, mk_change 2 200 1400 1600]"
  by (simp add: max_prefix_scan effective_old_rating_def mk_change_def)

text \<open>
  C2: for every non-empty rating-change sequence the output of peak-prefix extraction is
  non-decreasing in new rating and is an order-preserving subsequence of the input.
\<close>

theorem max_prefix_sorted_subseq:
  assumes "cs \<noteq> []"
  shows "sorted (map newRating (max_prefix cs)) \<and> subseq (max_prefix cs) cs"
  by (simp add: max_prefix_scan peak_scan_sorted peak_scan_subseq)

theorem max_prefix_sorted_subseq_witness:
  "[mk_change 1 100 1500 1490, mk_change 2 200 1490 1600, mk_change 3 300 1600 1550] \<noteq> [] \<and>
   sorted (map newRating (max_prefix
     [mk_change 1 100 1500 1490, mk_change 2 200 1490 1600, mk_change 3 300 1600 1550])) \<and>
   subseq (max_prefix
     [mk_change 1 100 1500 1490, mk_change 2 200 1490 1600, mk_change 3 300 1600 1550])
     [mk_change 1 100 1500 1490, mk_change 2 200 1490 1600, mk_change 3 300 1600 1550]"
  using max_prefix_sorted_subseq
    [of "[mk_change 1 100 1500 1490, mk_change 2 200 1490 1600, mk_change 3 300 1600 1550]"]
  by simp

section \<open>Properties of the running mean\<close>

lemma cum_sum_fold:
  "m \<le> length (x::rat list) \<Longrightarrow> length cs = length x + 1 \<Longrightarrow> cs ! 0 = 0 \<Longrightarrow>
   length (fold (\<lambda>i cum_sum. cum_sum[Suc i := x ! i + cum_sum ! i]) [0..<m] cs) = length x + 1 \<and>
   (\<forall>k\<le>m. fold (\<lambda>i cum_sum. cum_sum[Suc i := x ! i + cum_sum ! i]) [0..<m] cs ! k = sum_list (take k x))"
proof (induction m)
  case 0
  then show ?case by simp
next
  case (Suc m)
  let ?f = "\<lambda>i cum_sum. cum_sum[Suc i := x ! i + cum_sum ! i]"
  let ?c = "fold ?f [0..<m] cs"
  from Suc have len: "length ?c = length x + 1" and ih: "\<forall>k\<le>m. ?c ! k = sum_list (take k x)"
    by simp_all
  have step: "fold ?f [0..<Suc m] cs = ?c[Suc m := x ! m + ?c ! m]" by simp
  have m: "m < length x" using Suc.prems by simp
  have "\<forall>k\<le>Suc m. (?c[Suc m := x ! m + ?c ! m]) ! k = sum_list (take k x)"
  proof (intro allI impI)
    fix k assume k: "k \<le> Suc m"
    show "(?c[Suc m := x ! m + ?c ! m]) ! k = sum_list (take k x)"
    proof (cases "k = Suc m")
      case True
      then show ?thesis using len m ih by (simp add: take_Suc_conv_app_nth add.commute)
    next
      case False
      then show ?thesis using k ih by simp
    qed
  qed
  then show ?case using len step by simp
qed

lemma cum_sum_loop_length: "length (cum_sum_loop x) = length x + 1"
  using cum_sum_fold[of "length x" x "replicate (length x + 1) 0"]
  by (simp add: cum_sum_loop_def)

lemma cum_sum_loop_nth: "k \<le> length x \<Longrightarrow> cum_sum_loop x ! k = sum_list (take k x)"
  using cum_sum_fold[of "length x" x "replicate (length x + 1) 0"]
  by (simp add: cum_sum_loop_def)

lemma mean_step_ok:
  assumes "1 \<le> w" "w \<le> i" "i \<le> n" "int (length cs) = n + 1" "int (length res) = n - w + 1"
  shows "mean_step cs w i res = Inr (mean_write cs w i res)"
  using assms by (simp add: mean_step_def py_get_def py_set_def mean_write_def Let_def)

lemma mean_loop_ok:
  assumes "1 \<le> w" "\<forall>i\<in>set idx. w \<le> i \<and> i \<le> n"
    "int (length cs) = n + 1" "int (length res) = n - w + 1"
  shows "mean_loop cs w idx res = Inr (fold (mean_write cs w) idx res)"
  using assms
proof (induction idx arbitrary: res)
  case Nil
  then show ?case by simp
next
  case (Cons i idx)
  have "mean_step cs w i res = Inr (mean_write cs w i res)"
    using Cons.prems by (intro mean_step_ok[where n = n]) simp_all
  moreover have "length (mean_write cs w i res) = length res" by (simp add: mean_write_def)
  ultimately show ?case using Cons by simp
qed

lemma length_fold_mean_write: "length (fold (mean_write cs w) idx res) = length res"
  by (induction idx arbitrary: res) (simp_all add: mean_write_def)

lemma nth_fold_mean_write:
  assumes "\<forall>i\<in>set idx. w \<le> i" "j < length res"
  shows "fold (mean_write cs w) idx res ! j =
     (if int j + w \<in> set idx then (cs ! nat (int j + w) - cs ! j) / of_int w else res ! j)"
  using assms
proof (induction idx arbitrary: res)
  case Nil
  then show ?case by simp
next
  case (Cons i idx)
  have len: "j < length (mean_write cs w i res)" using Cons.prems by (simp add: mean_write_def)
  have ih: "fold (mean_write cs w) idx (mean_write cs w i res) ! j =
     (if int j + w \<in> set idx then (cs ! nat (int j + w) - cs ! j) / of_int w
      else mean_write cs w i res ! j)"
    using Cons.IH[OF _ len] Cons.prems by simp
  have wi: "w \<le> i" using Cons.prems by simp
  have here: "mean_write cs w i res ! j =
     (if int j + w = i then (cs ! nat (int j + w) - cs ! j) / of_int w else res ! j)"
  proof (cases "int j + w = i")
    case True
    then have "nat (i - w) = j" by simp
    then show ?thesis using True Cons.prems by (simp add: mean_write_def)
  next
    case False
    then have "nat (i - w) \<noteq> j" using wi by auto
    then show ?thesis using False by (simp add: mean_write_def)
  qed
  show ?case using ih here by auto
qed

lemma sum_window:
  "sum_list (take (j + w) (x::rat list)) - sum_list (take j x) = sum_list (take w (drop j x))"
  by (simp add: take_add)

lemma running_mean_naive:
  assumes "1 \<le> w" "w \<le> int (length x)"
  shows "running_mean x w = Inr (naive_mean x (nat w))"
proof -
  let ?n = "int (length x)"
  let ?cs = "cum_sum_loop x"
  let ?res = "replicate (nat (?n - w + 1)) (0::rat)"
  let ?out = "fold (mean_write ?cs w) [w..?n] ?res"
  have run: "running_mean x w = Inr ?out"
    using assms
    by (simp add: running_mean_def Let_def mean_loop_ok[where n = ?n] cum_sum_loop_length)
  have len: "length ?out = length x + 1 - nat w"
    using assms by (simp add: length_fold_mean_write)
  have "?out = naive_mean x (nat w)"
  proof (rule nth_equalityI)
    show "length ?out = length (naive_mean x (nat w))"
      using len by (simp add: naive_mean_def)
  next
    fix j assume j: "j < length ?out"
    then have jb: "j + nat w \<le> length x" using len assms by linarith
    have mem: "int j + w \<in> set [w..?n]" using jb assms by auto
    have jres: "j < length ?res" using j by (simp add: length_fold_mean_write)
    have "?out ! j = (?cs ! nat (int j + w) - ?cs ! j) / of_int w"
      using nth_fold_mean_write[of "[w..?n]" w j ?res ?cs] jres mem by simp
    also have "nat (int j + w) = j + nat w" using assms by linarith
    also have "?cs ! (j + nat w) = sum_list (take (j + nat w) x)"
      using jb by (simp add: cum_sum_loop_nth)
    also have "?cs ! j = sum_list (take j x)"
      using jb by (simp add: cum_sum_loop_nth)
    also have "(sum_list (take (j + nat w) x) - sum_list (take j x)) / of_int w
        = window_mean x (nat w) j"
      using assms by (simp add: sum_window window_mean_def)
    finally show "?out ! j = naive_mean x (nat w) ! j"
      using j len by (simp add: naive_mean_def)
  qed
  then show ?thesis using run by simp
qed

lemma running_mean_wide:
  assumes "int (length x) < w"
  shows "running_mean x w = Inr []"
  using assms by (simp add: running_mean_def Let_def)


text \<open>
  C3: for every numeric sequence and every window \<open>w\<close> with \<open>1 \<le> w \<le> len(seq)\<close> the running
  mean returns, without raising, a sequence of length \<open>len(seq) - w + 1\<close>; for every
  \<open>w > len(seq)\<close> it returns the empty sequence.
\<close>

theorem running_mean_length:
  "(1 \<le> w \<and> w \<le> int (length x) \<longrightarrow>
      (\<exists>res. running_mean x w = Inr res \<and> int (length res) = int (length x) - w + 1)) \<and>
   (int (length x) < w \<longrightarrow> running_mean x w = Inr [])"
proof (intro conjI impI)
  assume w: "1 \<le> w \<and> w \<le> int (length x)"
  then have "running_mean x w = Inr (naive_mean x (nat w))"
    by (simp add: running_mean_naive)
  moreover have "int (length (naive_mean x (nat w))) = int (length x) - w + 1"
    using w by (simp add: naive_mean_def) linarith
  ultimately show "\<exists>res. running_mean x w = Inr res \<and> int (length res) = int (length x) - w + 1"
    by blast
next
  assume "int (length x) < w"
  then show "running_mean x w = Inr []" by (rule running_mean_wide)
qed

theorem running_mean_length_witness:
  "(1 \<le> (2::int) \<and> 2 \<le> int (length [1, 2, 3, 4 :: rat])) \<and>
   (\<exists>res. running_mean [1, 2, 3, 4] 2 = Inr res \<and> int (length res) = 3) \<and>
   int (length [1, 2, 3, 4 :: rat]) < 5 \<and> running_mean [1, 2, 3, 4] 5 = Inr []"
  using running_mean_length[of 2 "[1, 2, 3, 4]"] running_mean_length[of 5 "[1, 2, 3, 4]"]
  by simp

text \<open>
  C4: for every paired series whose length is at most the window, including a length equal to
  the window, smoothing raises no error and yields the empty sequence of points.
\<close>

theorem plot_average_short:
  assumes "int (length practice) \<le> bin_size"
  shows "plot_average practice bin_size = Inr []"
  using assms by (simp add: plot_average_def)

theorem plot_average_short_witness:
  "int (length [(10, 1000), (20, 1100 :: rat)]) \<le> 2 \<and>
   plot_average [(10, 1000), (20, 1100)] 2 = Inr []"
  using plot_average_short[of "[(10, 1000), (20, 1100)]" 2] by simp

lemma plot_average_naive:
  assumes "1 \<le> w" "w < int (length practice)"
  shows "plot_average practice w =
    Inr (zip (naive_mean (map fst practice) (nat w)) (naive_mean (map snd practice) (nat w)))"
proof -
  have ne: "practice \<noteq> []" using assms by auto
  have "running_mean (map fst practice) w = Inr (naive_mean (map fst practice) (nat w))"
    using assms by (simp add: running_mean_naive)
  moreover have "running_mean (map snd practice) w = Inr (naive_mean (map snd practice) (nat w))"
    using assms by (simp add: running_mean_naive)
  ultimately show ?thesis using assms ne by (simp add: plot_average_def Let_def)
qed

lemma naive_mean_four:
  "naive_mean [a, b, c, d] 2 = [(a + b) / 2, (b + c) / 2, (c + d) / 2]"
proof -
  have "[0..<length [a, b, c, d] + 1 - 2] = [0, 1, 2]" by (simp add: upt_rec)
  then show ?thesis by (simp add: naive_mean_def window_mean_def)
qed

text \<open>
  C5: for every numeric sequence \<open>x\<close> and window \<open>w\<close> with \<open>1 \<le> w \<le> len(x)\<close> the prefix-sum
  running mean equals the plain sliding-window average, whose element \<open>i\<close> is
  \<open>(x[i] + ... + x[i+w-1]) / w\<close>; \<^verbatim>\<open>_plot_average\<close> applies it to the timestamp axis and to
  the value axis alike; and smoothing (t0,1000), (t1,1100), (t2,1200), (t3,1300) with window 2
  yields (avg(t0,t1),1050), (avg(t1,t2),1150), (avg(t2,t3),1250). Numbers are exact rationals.
\<close>

theorem running_mean_refines_naive:
  "(1 \<le> w \<and> w \<le> int (length x) \<longrightarrow>
      running_mean x w = Inr (naive_mean x (nat w))) \<and>
   (1 \<le> w \<and> w < int (length practice) \<longrightarrow>
      plot_average practice w =
        Inr (zip (naive_mean (map fst practice) (nat w)) (naive_mean (map snd practice) (nat w)))) \<and>
   plot_average [(t0, 1000), (t1, 1100), (t2, 1200), (t3, 1300)] 2 =
     Inr [((t0 + t1) / 2, 1050), ((t1 + t2) / 2, 1150), ((t2 + t3) / 2, 1250)]"
proof (intro conjI impI)
  assume "1 \<le> w \<and> w \<le> int (length x)"
  then show "running_mean x w = Inr (naive_mean x (nat w))"
    by (simp add: running_mean_naive)
next
  assume "1 \<le> w \<and> w < int (length practice)"
  then show "plot_average practice w =
        Inr (zip (naive_mean (map fst practice) (nat w)) (naive_mean (map snd practice) (nat w)))"
    by (simp add: plot_average_naive)
next
  show "plot_average [(t0, 1000), (t1, 1100), (t2, 1200), (t3, 1300)] 2 =
     Inr [((t0 + t1) / 2, 1050), ((t1 + t2) / 2, 1150), ((t2 + t3) / 2, 1250)]"
    using plot_average_naive[of 2 "[(t0, 1000), (t1, 1100), (t2, 1200), (t3, 1300)]"]
    by (simp add: naive_mean_four)
qed

theorem running_mean_refines_naive_witness:
  "(1 \<le> (2::int) \<and> 2 \<le> int (length [1, 2, 4 :: rat])) \<and>
   running_mean [1, 2, 4] 2 = Inr (naive_mean [1, 2, 4] (nat 2)) \<and>
   (1 \<le> (2::int) \<and> 2 < int (length [(10, 1), (20, 2), (30, 4 :: rat)])) \<and>
   plot_average [(10, 1), (20, 2), (30, 4)] 2 =
     Inr (zip (naive_mean (map fst [(10, 1), (20, 2), (30, 4)]) (nat 2))
              (naive_mean (map snd [(10, 1), (20, 2), (30, 4)]) (nat 2)))"
  using running_mean_refines_naive[of 2 "[1, 2, 4]" "[(10, 1), (20, 2), (30, 4)]" 0 0 0 0]
  by simp

section \<open>Properties of the submission classifier\<close>

lemma init_solved_by_type_fold:
  "fold (\<lambda>sub_type d. d(sub_type \<mapsto> [])) ts d0 =
     (\<lambda>t. if t \<in> set ts then Some [] else d0 t)"
  by (induction ts arbitrary: d0) (auto simp: fun_eq_iff)

lemma init_solved_by_type_apply:
  "init_solved_by_type ts = (\<lambda>t. if t \<in> set ts then Some [] else None)"
  by (simp add: init_solved_by_type_def init_solved_by_type_fold)

lemma classify_loop_ok:
  "\<forall>s\<in>set subs. participantType s \<in> dom d \<Longrightarrow> classify_loop d subs = Inr (extend_by d subs)"
proof (induction subs arbitrary: d)
  case Nil
  show ?case by (simp add: extend_by_def fun_eq_iff split: option.splits)
next
  case (Cons s subs)
  from Cons.prems obtain l where l: "d (participantType s) = Some l" by auto
  let ?d = "d(participantType s \<mapsto> l @ [s])"
  have step: "classify_step d s = Inr ?d" using l by (simp add: classify_step_def)
  have "\<forall>s'\<in>set subs. participantType s' \<in> dom ?d" using Cons.prems by auto
  then have "classify_loop ?d subs = Inr (extend_by ?d subs)" by (rule Cons.IH)
  moreover have "extend_by ?d subs = extend_by d (s # subs)"
    using l by (auto simp: extend_by_def fun_eq_iff split: option.splits)
  ultimately show ?case using step by simp
qed

lemma classify_loop_KeyError:
  "\<exists>s\<in>set subs. participantType s \<notin> dom d \<Longrightarrow> classify_loop d subs = Inl KeyError"
proof (induction subs arbitrary: d)
  case Nil
  then show ?case by simp
next
  case (Cons s subs)
  show ?case
  proof (cases "d (participantType s)")
    case None
    then show ?thesis by (simp add: classify_step_def)
  next
    case (Some l)
    let ?d = "d(participantType s \<mapsto> l @ [s])"
    have "dom ?d = dom d" using Some by auto
    moreover have "\<exists>s'\<in>set subs. participantType s' \<notin> dom d" using Cons.prems Some by auto
    ultimately have "\<exists>s'\<in>set subs. participantType s' \<notin> dom ?d" by metis
    then have "classify_loop ?d subs = Inl KeyError" by (rule Cons.IH)
    then show ?thesis using Some by (simp add: classify_step_def)
  qed
qed

text \<open>
  C10: when every submission's participant type is one of the known types, the classifier
  returns a mapping whose keys are exactly the known types, each mapped to the submissions of
  that type in input order (the empty sequence for a type without submissions); when some
  submission has a participant type outside the known types, the classifier raises
  \<open>KeyError\<close> and creates no new key.
\<close>

theorem classify_submissions_partition:
  "((\<forall>s\<in>set submissions. participantType s \<in> set PARTICIPANT_TYPES) \<longrightarrow>
      (\<exists>d. classify_submissions PARTICIPANT_TYPES submissions = Inr d \<and>
           dom d = set PARTICIPANT_TYPES \<and>
           (\<forall>t\<in>set PARTICIPANT_TYPES.
              d t = Some (filter (\<lambda>s. participantType s = t) submissions)))) \<and>
   ((\<exists>s\<in>set submissions. participantType s \<notin> set PARTICIPANT_TYPES) \<longrightarrow>
      classify_submissions PARTICIPANT_TYPES submissions = Inl KeyError)"
proof (intro conjI impI)
  let ?d0 = "init_solved_by_type PARTICIPANT_TYPES"
  have dom0: "dom ?d0 = set PARTICIPANT_TYPES"
    by (auto simp: init_solved_by_type_apply split: if_splits)
  {
    assume "\<forall>s\<in>set submissions. participantType s \<in> set PARTICIPANT_TYPES"
    then have run: "classify_submissions PARTICIPANT_TYPES submissions
        = Inr (extend_by ?d0 submissions)"
      using dom0 by (simp add: classify_submissions_def classify_loop_ok)
    have "dom (extend_by ?d0 submissions) = set PARTICIPANT_TYPES"
      by (auto simp: extend_by_def init_solved_by_type_apply split: option.splits if_splits)
    moreover have "\<forall>t\<in>set PARTICIPANT_TYPES. extend_by ?d0 submissions t
        = Some (filter (\<lambda>s. participantType s = t) submissions)"
      by (simp add: extend_by_def init_solved_by_type_apply)
    ultimately show "\<exists>d. classify_submissions PARTICIPANT_TYPES submissions = Inr d \<and>
           dom d = set PARTICIPANT_TYPES \<and>
           (\<forall>t\<in>set PARTICIPANT_TYPES.
              d t = Some (filter (\<lambda>s. participantType s = t) submissions))"
      using run by blast
  }
  {
    assume "\<exists>s\<in>set submissions. participantType s \<notin> set PARTICIPANT_TYPES"
    then show "classify_submissions PARTICIPANT_TYPES submissions = Inl KeyError"
      using dom0 by (simp add: classify_submissions_def classify_loop_KeyError)
  }
qed


theorem classify_submissions_partition_witness:
  "list_all (\<lambda>s. participantType s \<in> set known_types)
     [mk_sub 1 10 ''PRACTICE'', mk_sub 2 20 ''CONTESTANT'', mk_sub 3 30 ''PRACTICE''] \<and>
   (\<exists>d. classify_submissions known_types
           [mk_sub 1 10 ''PRACTICE'', mk_sub 2 20 ''CONTESTANT'', mk_sub 3 30 ''PRACTICE''] = Inr d \<and>
        dom d = set known_types \<and>
        d ''PRACTICE'' = Some [mk_sub 1 10 ''PRACTICE'', mk_sub 3 30 ''PRACTICE''] \<and>
        d ''VIRTUAL'' = Some []) \<and>
   (\<exists>s\<in>set [mk_sub 1 10 ''PRACTICE'', mk_sub 2 20 ''MANAGER''].
      participantType s \<notin> set known_types) \<and>
   classify_submissions known_types [mk_sub 1 10 ''PRACTICE'', mk_sub 2 20 ''MANAGER'']
     = Inl KeyError"
proof -
  let ?a = "[mk_sub 1 10 ''PRACTICE'', mk_sub 2 20 ''CONTESTANT'', mk_sub 3 30 ''PRACTICE'']"
  let ?b = "[mk_sub 1 10 ''PRACTICE'', mk_sub 2 20 ''MANAGER'']"
  have a: "\<forall>s\<in>set ?a. participantType s \<in> set known_types"
    by (simp add: known_types_def mk_sub_def)
  have b: "\<exists>s\<in>set ?b. participantType s \<notin> set known_types"
    by (simp add: known_types_def mk_sub_def)
  from a classify_submissions_partition[of ?a known_types]
  obtain d where d: "classify_submissions known_types ?a = Inr d" "dom d = set known_types"
    "\<forall>t\<in>set known_types. d t = Some (filter (\<lambda>s. participantType s = t) ?a)"
    by blast
  have "d ''PRACTICE'' = Some [mk_sub 1 10 ''PRACTICE'', mk_sub 3 30 ''PRACTICE'']"
    using d(3) by (simp add: known_types_def mk_sub_def)
  moreover have "d ''VIRTUAL'' = Some []"
    using d(3) by (simp add: known_types_def mk_sub_def)
  moreover have "classify_submissions known_types ?b = Inl KeyError"
    using b classify_submissions_partition[of ?b known_types] by blast
  moreover have "list_all (\<lambda>s. participantType s \<in> set known_types) ?a"
    using a by (simp only: list_all_iff)
  ultimately show ?thesis using b d(1,2) by blast
qed

section \<open>Properties of the percentile computation\<close>

lemma bisect_left_loop_count:
  assumes "sorted a" "lo \<le> hi" "hi \<le> length a"
    "\<forall>i<lo. a ! i < x" "\<forall>i. hi \<le> i \<and> i < length a \<longrightarrow> x \<le> a ! i"
  shows "bisect_left_loop a x lo hi = length (filter (\<lambda>y. y < x) a)"
  using assms
proof (induction a x lo hi rule: bisect_left_loop.induct)
  case (1 a x lo hi)
  show ?case
  proof (cases "lo < hi")
    case False
    then have eq: "lo = hi" using "1.prems" by simp
    have "filter (\<lambda>y. y < x) (take hi a) = take hi a"
      using "1.prems" eq by (auto simp: filter_id_conv in_set_conv_nth)
    moreover have "filter (\<lambda>y. y < x) (drop hi a) = []"
    proof -
      have "\<not> y < x" if "y \<in> set (drop hi a)" for y
      proof -
        from that obtain i where i: "i < length (drop hi a)" "y = drop hi a ! i"
          by (auto simp: in_set_conv_nth)
        then have "y = a ! (hi + i)" "hi + i < length a" using "1.prems" by auto
        then have "x \<le> y" using "1.prems"(5) by auto
        then show ?thesis by simp
      qed
      then show ?thesis by (simp add: filter_empty_conv)
    qed
    moreover have "filter (\<lambda>y. y < x) a
        = filter (\<lambda>y. y < x) (take hi a) @ filter (\<lambda>y. y < x) (drop hi a)"
      by (metis append_take_drop_id filter_append)
    ultimately have "length (filter (\<lambda>y. y < x) a) = hi"
      using "1.prems" by simp
    then show ?thesis using False eq by (simp add: bisect_left_loop.simps)
  next
    case True
    let ?mid = "(lo + hi) div 2"
    have mid: "lo \<le> ?mid" "?mid < hi" using True by linarith+
    show ?thesis
    proof (cases "a ! ?mid < x")
      case lt: True
      have "\<forall>i<?mid + 1. a ! i < x"
      proof (intro allI impI)
        fix i assume "i < ?mid + 1"
        then have "a ! i \<le> a ! ?mid"
          using "1.prems" mid by (intro sorted_nth_mono) auto
        then show "a ! i < x" using lt by simp
      qed
      then have "bisect_left_loop a x (?mid + 1) hi = length (filter (\<lambda>y. y < x) a)"
        using "1.IH"(1)[OF True refl lt] "1.prems" mid by simp
      then show ?thesis using True lt by (subst bisect_left_loop.simps) (simp add: Let_def)
    next
      case ge: False
      have "\<forall>i. ?mid \<le> i \<and> i < length a \<longrightarrow> x \<le> a ! i"
      proof (intro allI impI)
        fix i assume "?mid \<le> i \<and> i < length a"
        then have "a ! ?mid \<le> a ! i"
          using "1.prems" by (intro sorted_nth_mono) auto
        then show "x \<le> a ! i" using ge by simp
      qed
      then have "bisect_left_loop a x lo ?mid = length (filter (\<lambda>y. y < x) a)"
        using "1.IH"(2)[OF True refl ge] "1.prems" mid by simp
      then show ?thesis using True ge by (subst bisect_left_loop.simps) (simp add: Let_def)
    qed
  qed
qed

lemma bisect_left_count:
  "sorted a \<Longrightarrow> bisect_left a x = length (filter (\<lambda>y. y < x) a)"
  using bisect_left_loop_count[of a 0 "length a" x] by (simp add: bisect_left_def)


text \<open>
  C6: for every non-empty sorted population and every integer query \<open>v\<close>, the percentile of
  \<open>v\<close> is 100 times the number of population elements strictly less than \<open>v\<close>, divided by the
  population size, the number being the leftmost insertion point found by the binary search;
  the percentile of 1200 in the sorted population 900, 1000, 1200, 1400 is 50.
\<close>

theorem percentile_of_count:
  assumes "sorted ratings" "ratings \<noteq> []"
  shows "bisect_left ratings v = length (filter (\<lambda>r. r < v) ratings) \<and>
    percentile_of ratings v
      = Inr (100 * of_nat (length (filter (\<lambda>r. r < v) ratings)) / of_nat (length ratings)) \<and>
    percentile_of (sort [900, 1000, 1200, 1400]) 1200 = Inr 50"
proof -
  have "sorted (sort [900, 1000, 1200, 1400 :: int])" by (rule sorted_sort)
  then have "bisect_left (sort [900, 1000, 1200, 1400]) 1200
      = length (filter (\<lambda>r. r < 1200) (sort [900, 1000, 1200, 1400 :: int]))"
    by (rule bisect_left_count)
  then have "percentile_of (sort [900, 1000, 1200, 1400]) 1200 = Inr 50"
    by (simp add: percentile_of_def)
  then show ?thesis using assms by (simp add: percentile_of_def bisect_left_count)
qed

theorem percentile_of_count_witness:
  "sorted [900, 1000, 1200, 1400 :: int] \<and> [900, 1000, 1200, 1400 :: int] \<noteq> [] \<and>
   bisect_left [900, 1000, 1200, 1400] 1250 = 3 \<and>
   percentile_of [900, 1000, 1200, 1400] 1250 = Inr 75"
  using percentile_of_count[of "[900, 1000, 1200, 1400]" 1250] by simp

lemma percentile_curve_empty: "percentile_curve [] = ([], [])"
  by (simp add: percentile_curve_def)

lemma percentile_of_empty: "percentile_of [] v = Inl ZeroDivisionError"
  by (simp add: percentile_of_def)

text \<open>
  C9, as amended: with an empty population nothing is checked up front. The percentile curve
  is computed without error and is empty, the percentile of a rating raises
  \<open>ZeroDivisionError\<close> at its division, and the command fails afterwards: with
  \<open>ZeroDivisionError\<close> at the first user to mark when that user is rated, with
  \<open>GraphCogError\<close> when that user is unrated, and with \<open>IndexError\<close> at \<^verbatim>\<open>ratings[0]\<close> when
  no user is marked.
\<close>

theorem centile_empty_population:
  "percentile_curve [] = ([], []) \<and>
   percentile_of [] v = Inl ZeroDivisionError \<and>
   centile [] zoom False (\<lparr>handle = h, rating = Some r\<rparr> # infos) = Inl ZeroDivisionError \<and>
   centile [] zoom False (\<lparr>handle = h, rating = None\<rparr> # infos) = Inl GraphCogError \<and>
   centile [] zoom False [] = Inl IndexError \<and>
   centile [] zoom True infos = Inl IndexError"
  by (simp add: centile_def percentile_curve_empty percentile_of_empty centile_xlim_def
      py_get_def)

text \<open>
  C9 as stated fails: on the empty population the curve is returned, not an error, and the
  percentile of a rating fails only at its division.
\<close>

theorem centile_empty_counterexample:
  "percentile_curve [] = ([], []) \<and> percentile_of [] 1500 = Inl ZeroDivisionError"
  by (simp add: percentile_curve_empty percentile_of_empty)

section \<open>Properties of the rating histogram\<close>

lemma div_eq_bucket:
  fixes b r i :: int
  assumes "0 < b"
  shows "r div b = i \<longleftrightarrow> i * b \<le> r \<and> r < (i + 1) * b"
proof
  assume "r div b = i"
  then have "r = i * b + r mod b" by (metis div_mult_mod_eq)
  moreover have "0 \<le> r mod b" "r mod b < b" using assms by simp_all
  ultimately show "i * b \<le> r \<and> r < (i + 1) * b" by (simp add: algebra_simps)
next
  assume a: "i * b \<le> r \<and> r < (i + 1) * b"
  then have "0 \<le> r - i * b" "r - i * b < b" by (simp_all add: algebra_simps)
  then have "(r - i * b) div b = 0" by simp
  moreover have "r = (r - i * b) + i * b" by simp
  ultimately show "r div b = i"
    using assms by (metis add.left_neutral div_mult_self1 less_irrefl mult.commute add.commute)
qed


lemma sum_list_bump:
  fixes h :: "int list"
  assumes "k < length h"
  shows "sum_list (h[k := h ! k + 1]) = sum_list h + 1"
proof -
  have "h = take k h @ h ! k # drop (Suc k) h" using assms by (rule id_take_nth_drop)
  then have "sum_list h = sum_list (take k h) + h ! k + sum_list (drop (Suc k) h)"
    by (metis sum_list.Cons sum_list.append add.assoc)
  moreover have "sum_list (h[k := h ! k + 1])
      = sum_list (take k h) + (h ! k + 1) + sum_list (drop (Suc k) h)"
    using assms by (simp add: upd_conv_take_nth_drop)
  ultimately show ?thesis by simp
qed

lemma height_step_ok:
  assumes "0 < b" "0 \<le> r" "r < int (length h) * b"
  shows "height_step b h r = Inr (h[nat (r div b) := h ! nat (r div b) + 1])"
    and "nat (r div b) < length h"
proof -
  have nonneg: "0 \<le> r div b" using assms by (simp add: pos_imp_zdiv_nonneg_iff)
  have below: "(r div b) * b \<le> r"
    using div_eq_bucket[OF assms(1), of r "r div b"] by simp
  have "r div b < int (length h)"
  proof (rule ccontr)
    assume "\<not> r div b < int (length h)"
    then have "int (length h) \<le> r div b" by simp
    then have "int (length h) * b \<le> (r div b) * b"
      using assms(1) by (simp add: mult_right_mono)
    then show False using below assms(3) by linarith
  qed
  then show "nat (r div b) < length h" using nonneg by linarith
  then show "height_step b h r = Inr (h[nat (r div b) := h ! nat (r div b) + 1])"
    using nonneg by (simp add: height_step_def py_get_def py_set_def Let_def)
qed


lemma height_loop_ok:
  assumes "0 < b" "\<forall>r\<in>set rs. 0 \<le> r \<and> r < int (length h) * b"
  shows "\<exists>h'. height_loop b h rs = Inr h' \<and> length h' = length h \<and>
           sum_list h' = sum_list h + int (length rs) \<and>
           (\<forall>i<length h. h' ! i = h ! i + int (length (filter (\<lambda>r. r div b = int i) rs)))"
  using assms(2)
proof (induction rs arbitrary: h)
  case Nil
  then show ?case by simp
next
  case (Cons r rs)
  let ?k = "nat (r div b)"
  let ?h = "h[?k := h ! ?k + 1]"
  have r: "0 \<le> r" "r < int (length h) * b" using Cons.prems by simp_all
  have step: "height_step b h r = Inr ?h" and k: "?k < length h"
    using height_step_ok[OF assms(1) r] by simp_all
  have nonneg: "0 \<le> r div b" using assms(1) r by (simp add: pos_imp_zdiv_nonneg_iff)
  have "\<forall>r\<in>set rs. 0 \<le> r \<and> r < int (length ?h) * b" using Cons.prems by simp
  from Cons.IH[OF this] obtain h' where h':
    "height_loop b ?h rs = Inr h'" "length h' = length ?h"
    "sum_list h' = sum_list ?h + int (length rs)"
    "\<forall>i<length ?h. h' ! i = ?h ! i + int (length (filter (\<lambda>r. r div b = int i) rs))"
    by blast
  have run: "height_loop b h (r # rs) = Inr h'" using step h'(1) by simp
  have len: "length h' = length h" using h'(2) by simp
  have total: "sum_list h' = sum_list h + int (length (r # rs))"
    using h'(3) sum_list_bump[OF k] by simp
  have each: "h' ! i = h ! i + int (length (filter (\<lambda>r. r div b = int i) (r # rs)))"
    if i: "i < length h" for i
  proof (cases "i = ?k")
    case True
    then have "r div b = int i" using nonneg by simp
    moreover have "h' ! i = ?h ! i + int (length (filter (\<lambda>r. r div b = int i) rs))"
      using h'(4) i by simp
    ultimately show ?thesis using True k by simp
  next
    case False
    then have "r div b \<noteq> int i" by auto
    moreover have "h' ! i = ?h ! i + int (length (filter (\<lambda>r. r div b = int i) rs))"
      using h'(4) i by simp
    ultimately show ?thesis using False by simp
  qed
  show ?case using run len total each by blast
qed

lemma cent_loop_ok:
  assumes "users \<noteq> 0"
  shows "\<exists>c. cent_loop users hs csum cent = Inr c \<and> length c = length cent + length hs \<and>
           (\<forall>i<length cent. c ! i = cent ! i) \<and>
           (\<forall>j<length hs. c ! (length cent + j)
              = py_round (100 * of_int (csum + sum_list (take (Suc j) hs)) / of_int users))"
proof (induction hs arbitrary: csum cent)
  case Nil
  then show ?case by simp
next
  case (Cons h hs)
  let ?v = "py_round (100 * of_int (csum + h) / of_int users)"
  from Cons.IH[of "csum + h" "cent @ [?v]"] obtain c where c:
    "cent_loop users hs (csum + h) (cent @ [?v]) = Inr c"
    "length c = length (cent @ [?v]) + length hs"
    "\<forall>i<length (cent @ [?v]). c ! i = (cent @ [?v]) ! i"
    "\<forall>j<length hs. c ! (length (cent @ [?v]) + j)
        = py_round (100 * of_int (csum + h + sum_list (take (Suc j) hs)) / of_int users)"
    by blast
  have run: "cent_loop users (h # hs) csum cent = Inr c" using assms c(1) by simp
  have len: "length c = length cent + length (h # hs)" using c(2) by simp
  have old: "\<forall>i<length cent. c ! i = cent ! i"
    using c(3) by (simp add: nth_append)
  have new: "c ! (length cent + j)
      = py_round (100 * of_int (csum + sum_list (take (Suc j) (h # hs))) / of_int users)"
    if j: "j < length (h # hs)" for j
  proof (cases j)
    case 0
    have "c ! length cent = (cent @ [?v]) ! length cent" using c(3) by simp
    then show ?thesis using 0 by simp
  next
    case (Suc j')
    then have "j' < length hs" using j by simp
    then have "c ! (length (cent @ [?v]) + j')
        = py_round (100 * of_int (csum + h + sum_list (take (Suc j') hs)) / of_int users)"
      using c(4) by blast
    then show ?thesis using Suc by (simp add: add.assoc)
  qed
  show ?case using run len old new by blast
qed


lemma py_get_nat: "i < length xs \<Longrightarrow> py_get xs (int i) = Inr (xs ! i)"
  by (simp add: py_get_def Let_def)

lemma trim_left_ok:
  assumes "m < length h" "h ! m \<noteq> 0" "\<forall>i. l \<le> i \<and> i < m \<longrightarrow> h ! i = 0" "l \<le> m"
  shows "trim_left h (int l) = Inr (int m)"
  using assms(3,4)
proof (induction "m - l" arbitrary: l)
  case 0
  then have "l = m" by simp
  then show ?case using assms(1,2) by (subst trim_left.simps) (simp add: py_get_nat)
next
  case (Suc d)
  then have l: "l < m" "h ! l = 0" by auto
  have "trim_left h (int (Suc l)) = Inr (int m)"
    using Suc.hyps Suc.prems l by (intro Suc.hyps(1)) auto
  then have next_l: "trim_left h (int l + 1) = Inr (int m)" by (simp add: add.commute)
  have "trim_left h (int l) = trim_left h (int l + 1)"
    using l assms(1) by (subst trim_left.simps) (simp add: py_get_nat)
  then show ?case using next_l by simp
qed

lemma trim_right_ok:
  assumes "r < length h" "h ! m \<noteq> 0" "\<forall>i. m < i \<and> i \<le> r \<longrightarrow> h ! i = 0" "m \<le> r"
  shows "trim_right h (int r) = Inr (int m)"
  using assms(1,3,4)
proof (induction "r - m" arbitrary: r)
  case 0
  then have "r = m" by simp
  then show ?case using 0 assms(2) by (subst trim_right.simps) (simp add: py_get_nat)
next
  case (Suc d)
  then have r: "m < r" "h ! r = 0" by auto
  then obtain r' where r': "r = Suc r'" by (cases r) auto
  have "trim_right h (int r') = Inr (int m)"
    using Suc.hyps Suc.prems r r' by (intro Suc.hyps(1)) auto
  moreover have "int r - 1 = int r'" using r' by simp
  ultimately have prev_r: "trim_right h (int r - 1) = Inr (int m)" by simp
  have "trim_right h (int r) = trim_right h (int r - 1)"
    using r Suc.prems(1) by (subst trim_right.simps) (simp add: py_get_nat)
  then show ?case using prev_r by simp
qed

lemma py_slice_nat:
  assumes "r < length xs"
  shows "py_slice xs (int l) (int r + 1) = drop l (take (Suc r) xs)"
proof -
  have "nat (max 0 (min (int (length xs)) (int l))) = min (length xs) l" by linarith
  moreover have "nat (max 0 (min (int (length xs)) (int r + 1))) = Suc r"
    using assms by linarith
  moreover have "drop (min (length xs) l) (take (Suc r) xs) = drop l (take (Suc r) xs)"
    by (cases "l \<le> length xs") (simp_all add: min_def)
  moreover have "\<not> int l < 0" "\<not> int r + 1 < 0" by simp_all
  ultimately show ?thesis unfolding py_slice_def Let_def by (simp only: if_False)
qed

lemma slice_map_upt:
  assumes "r < n"
  shows "drop l (take (Suc r) (map f [0..<n])) = map f [l..<Suc r]"
proof -
  have "take (Suc r) (map f [0..<n]) = map f [0..<Suc r]"
    using assms by (simp add: take_map)
  then show ?thesis by (simp add: drop_map)
qed

lemma list_as_map_nth: "xs = map (\<lambda>i. xs ! i) [0..<length xs]"
  by (simp add: map_nth)


lemma bucket_count_split:
  assumes "lower \<le> mid" "mid \<le> upper"
  shows "bucket_count vs lower upper = bucket_count vs lower mid + bucket_count vs mid upper"
  using assms by (induction vs) (auto simp: bucket_count_def)

lemma bucket_count_nonneg: "0 \<le> bucket_count vs lower upper"
  by (simp add: bucket_count_def)

lemma bucket_count_filter_nonneg:
  assumes "0 \<le> lower"
  shows "bucket_count (filter (\<lambda>r. 0 \<le> r) vs) lower upper = bucket_count vs lower upper"
proof -
  have "(0 \<le> v \<and> lower \<le> v \<and> v < upper) = (lower \<le> v \<and> v < upper)" for v
    using assms by auto
  then show ?thesis by (simp add: bucket_count_def)
qed

lemma bucket_count_div:
  assumes "0 < b"
  shows "int (length (filter (\<lambda>r. r div b = i) vs)) = bucket_count vs (i * b) ((i + 1) * b)"
  by (simp add: bucket_count_def div_eq_bucket[OF assms])

lemma upto_as_upt: "[0..int n - 1] = map int [0..<n]"
proof (induction n)
  case 0
  then show ?case by simp
next
  case (Suc n)
  have "[0..int (Suc n) - 1] = [0..int n - 1] @ [int n]"
    using upto_rec2[of 0 "int n"] by simp
  then show ?case using Suc by simp
qed

lemma zip_map_upt:
  assumes "n \<le> length c"
  shows "zip (map f [0..<n]) c = map (\<lambda>i. (f i, c ! i)) [0..<n]"
  using assms by (intro nth_equalityI) simp_all

lemma sum_take_buckets:
  assumes "0 < b" "\<forall>i<length h. h ! i = bucket_count vs (int i * b) ((int i + 1) * b)"
    "k \<le> length h"
  shows "sum_list (take k h) = bucket_count vs 0 (int k * b)"
  using assms(3)
proof (induction k)
  case 0
  then show ?case by (simp add: bucket_count_def)
next
  case (Suc k)
  then have k: "k < length h" by simp
  have "sum_list (take (Suc k) h) = sum_list (take k h) + h ! k"
    using k by (simp add: take_Suc_conv_app_nth)
  also have "\<dots> = bucket_count vs 0 (int k * b) + bucket_count vs (int k * b) ((int k + 1) * b)"
    using Suc k assms(2) by simp
  also have "\<dots> = bucket_count vs 0 ((int k + 1) * b)"
    using assms(1) by (subst bucket_count_split[of 0 "int k * b" "(int k + 1) * b"])
      (simp_all add: algebra_simps)
  finally show ?case by (simp add: algebra_simps)
qed

lemma exists_nonzero:
  fixes h :: "int list"
  assumes "\<forall>i<length h. 0 \<le> h ! i" "0 < sum_list h"
  shows "\<exists>i<length h. h ! i \<noteq> 0"
proof (rule ccontr)
  assume "\<not> (\<exists>i<length h. h ! i \<noteq> 0)"
  then have "\<forall>x\<in>set h. x = 0" by (auto simp: in_set_conv_nth)
  then have "sum_list h = 0" by (induction h) simp_all
  then show False using assms(2) by simp
qed


lemma py_round_zero: "py_round 0 = 0"
  by (simp add: py_round_def)

lemma sum_list_all_zero:
  fixes h :: "int list"
  shows "\<forall>x\<in>set h. x = 0 \<Longrightarrow> sum_list h = 0"
  by (induction h) simp_all

lemma rating_hist_run:
  assumes mode: "mode = ''log'' \<or> mode = ''normal''"
    and b: "0 < binsize" "100 mod binsize = 0"
    and colors: "int (length (hist_colors RATED_RANKS 0 (binsize * (39 * 100 div binsize)) binsize))
        = 39 * 100 div binsize"
    and some: "\<exists>v\<in>set ratings. 0 \<le> v"
    and upper: "\<forall>v\<in>set ratings. v < 3900"
  shows "\<exists>res l r. rating_hist RATED_RANKS ratings mode binsize = Inr res \<and> l \<le> r \<and>
      int (Suc r) * binsize \<le> 3900 \<and>
      bar_x res = map (\<lambda>k. int k * binsize) [l..<Suc r] \<and>
      bar_height res
        = map (\<lambda>k. bucket_count ratings (int k * binsize) ((int k + 1) * binsize)) [l..<Suc r] \<and>
      bar_label res
        = map (\<lambda>k. (int k * binsize,
                     py_round (100 * of_int (bucket_count ratings 0 (int k * binsize))
                                / of_int (bucket_count ratings 0 3900)))) [l..<Suc r] \<and>
      bucket_count ratings 0 (int l * binsize) = 0 \<and>
      bucket_count ratings (int (Suc r) * binsize) 3900 = 0 \<and>
      0 < bucket_count ratings 0 3900"
proof -
  define rs where "rs = filter (\<lambda>r. 0 \<le> r) ratings"
  define bins where "bins = 3900 div binsize"
  define n where "n = nat bins"
  define cols where "cols = hist_colors RATED_RANKS 0 (binsize * bins) binsize"
  have "binsize dvd 100" using b(2) by (simp add: dvd_eq_mod_eq_0)
  then have "binsize dvd 3900" by (rule dvd_trans) simp
  then have span: "binsize * bins = 3900" by (simp add: bins_def)
  have bins_pos: "0 < bins"
  proof (rule ccontr)
    assume "\<not> 0 < bins"
    then have "binsize * bins \<le> 0" using b(1) by (simp add: mult_le_0_iff)
    then show False using span by simp
  qed
  have n: "int n = bins" using bins_pos by (simp add: n_def)
  have n_pos: "0 < n" using bins_pos n by linarith
  have nb: "int n * binsize = 3900" using span n by (simp add: mult.commute)
  have rs_ne: "rs \<noteq> []" using some by (auto simp: rs_def filter_empty_conv)
  have cols_len: "int (length cols) = bins" using colors by (simp add: cols_def bins_def)
  have in_range: "\<forall>r\<in>set rs. 0 \<le> r \<and> r < int (length (replicate n (0::int))) * binsize"
    using upper nb by (auto simp: rs_def)
  from height_loop_ok[OF b(1) in_range] obtain h where h:
    "height_loop binsize (replicate n 0) rs = Inr h" "length h = n"
    "sum_list h = int (length rs)"
    "\<forall>i<n. h ! i = int (length (filter (\<lambda>r. r div binsize = int i) rs))"
    by (auto simp: sum_list_replicate)
  have bucket: "h ! i = bucket_count ratings (int i * binsize) ((int i + 1) * binsize)"
    if "i < n" for i
  proof -
    have "h ! i = bucket_count rs (int i * binsize) ((int i + 1) * binsize)"
      using that h(4) bucket_count_div[OF b(1), of "int i" rs] by simp
    also have "\<dots> = bucket_count ratings (int i * binsize) ((int i + 1) * binsize)"
      unfolding rs_def using b(1) by (intro bucket_count_filter_nonneg) simp
    finally show ?thesis .
  qed
  have prefix: "sum_list (take k h) = bucket_count ratings 0 (int k * binsize)" if "k \<le> n" for k
    using sum_take_buckets[OF b(1), of h ratings k] bucket h(2) that by simp
  have total: "sum_list h = bucket_count ratings 0 3900"
    using prefix[of n] h(2) nb by simp
  have users_pos: "0 < sum_list h" using h(3) rs_ne by simp
  have nonneg: "\<forall>i<length h. 0 \<le> h ! i" using bucket h(2) by (simp add: bucket_count_nonneg)
  from exists_nonzero[OF nonneg users_pos] obtain i0 where i0: "i0 < n" "h ! i0 \<noteq> 0"
    using h(2) by auto
  define l where "l = (LEAST i. i < n \<and> h ! i \<noteq> 0)"
  define r where "r = Max {i. i < n \<and> h ! i \<noteq> 0}"
  have l: "l < n" "h ! l \<noteq> 0" "\<forall>i<l. h ! i = 0"
  proof -
    have "l < n \<and> h ! l \<noteq> 0"
      unfolding l_def by (rule LeastI[of "\<lambda>i. i < n \<and> h ! i \<noteq> 0" i0]) (simp add: i0)
    then show "l < n" "h ! l \<noteq> 0" by simp_all
    show "\<forall>i<l. h ! i = 0"
    proof (intro allI impI)
      fix i assume "i < l"
      then have "\<not> (i < n \<and> h ! i \<noteq> 0)" unfolding l_def by (rule not_less_Least)
      moreover have "i < n" using \<open>i < l\<close> \<open>l < n \<and> h ! l \<noteq> 0\<close> by simp
      ultimately show "h ! i = 0" by simp
    qed
  qed
  have fin: "finite {i. i < n \<and> h ! i \<noteq> 0}" by simp
  have ne: "{i. i < n \<and> h ! i \<noteq> 0} \<noteq> {}" using i0 by auto
  have r: "r < n" "h ! r \<noteq> 0" "\<forall>i. r < i \<and> i < n \<longrightarrow> h ! i = 0"
  proof -
    have "r \<in> {i. i < n \<and> h ! i \<noteq> 0}" unfolding r_def using fin ne by (rule Max_in)
    then show "r < n" "h ! r \<noteq> 0" by simp_all
    show "\<forall>i. r < i \<and> i < n \<longrightarrow> h ! i = 0"
    proof (intro allI impI)
      fix i assume i: "r < i \<and> i < n"
      show "h ! i = 0"
      proof (rule ccontr)
        assume "h ! i \<noteq> 0"
        then have "i \<in> {i. i < n \<and> h ! i \<noteq> 0}" using i by simp
        then have "i \<le> r" unfolding r_def using fin by (rule Max_ge[rotated])
        then show False using i by simp
      qed
    qed
  qed
  have lr: "l \<le> r"
  proof -
    have "l \<in> {i. i < n \<and> h ! i \<noteq> 0}" using l by simp
    then show ?thesis unfolding r_def using fin by (rule Max_ge[rotated])
  qed
  have left: "trim_left h 0 = Inr (int l)"
    using trim_left_ok[of l h 0] l h(2) by simp
  have last_index: "n - 1 < length h" "r \<le> n - 1" using h(2) n_pos r(1) by simp_all
  have zeros: "\<forall>i. r < i \<and> i \<le> n - 1 \<longrightarrow> h ! i = 0" using r(3) n_pos by auto
  have "trim_right h (int (n - 1)) = Inr (int r)"
    using last_index(1) r(2) zeros last_index(2) by (rule trim_right_ok)
  moreover have "int (n - 1) = bins - 1" using n n_pos by linarith
  ultimately have right: "trim_right h (bins - 1) = Inr (int r)" by simp
  have users: "sum_list h \<noteq> 0" using users_pos by simp
  from cent_loop_ok[OF users, of h 0 "[0]"] obtain c where c:
    "cent_loop (sum_list h) h 0 [0] = Inr c" "length c = Suc n" "c ! 0 = 0"
    "\<forall>j<n. c ! Suc j
       = py_round (100 * of_int (sum_list (take (Suc j) h)) / of_int (sum_list h))"
    using h(2) by auto
  have cent: "c ! k = py_round (100 * of_int (bucket_count ratings 0 (int k * binsize))
      / of_int (bucket_count ratings 0 3900))" if "k \<le> n" for k
  proof (cases k)
    case 0
    then show ?thesis using c(3) by (simp add: bucket_count_def py_round_zero)
  next
    case (Suc j)
    then have "j < n" using that by simp
    then have "c ! Suc j
        = py_round (100 * of_int (sum_list (take (Suc j) h)) / of_int (sum_list h))"
      using c(4) by blast
    then show ?thesis using Suc prefix[OF that] total by simp
  qed
  define x where "x = map (\<lambda>k. k * binsize) [0..bins - 1]"
  have x: "x = map (\<lambda>i. int i * binsize) [0..<n]"
    using upto_as_upt[of n] n by (simp add: x_def comp_def)
  have label: "zip x c = map (\<lambda>i. (int i * binsize, c ! i)) [0..<n]"
    unfolding x using c(2) by (intro zip_map_upt) simp
  define res where "res =
    \<lparr>bar_x = py_slice x (int l) (int r + 1), bar_height = py_slice h (int l) (int r + 1),
     bar_colors = py_slice cols (int l) (int r + 1),
     bar_label = py_slice (zip x c) (int l) (int r + 1), bar_log = (mode = ''log''),
     bar_xlim = (int l * binsize - binsize div 2, int r * binsize + binsize div 2)\<rparr>"
  have run: "rating_hist RATED_RANKS ratings mode binsize = Inr res"
    using mode b(1) b(2) rs_ne cols_len h(1) c(1) left right
    unfolding rating_hist_def Let_def res_def x_def cols_def bins_def rs_def n_def
    by simp
  have len_x: "length x = n" by (simp add: x)
  have bx: "bar_x res = map (\<lambda>k. int k * binsize) [l..<Suc r]"
  proof -
    have "bar_x res = drop l (take (Suc r) x)"
      using py_slice_nat[of r x l] r(1) len_x by (simp add: res_def)
    then show ?thesis unfolding x using r(1) by (simp only: slice_map_upt)
  qed
  have bh: "bar_height res
      = map (\<lambda>k. bucket_count ratings (int k * binsize) ((int k + 1) * binsize)) [l..<Suc r]"
  proof -
    have "bar_height res = drop l (take (Suc r) h)"
      using py_slice_nat[of r h l] r(1) h(2) by (simp add: res_def)
    also have "h = map (\<lambda>i. h ! i) [0..<n]" using list_as_map_nth[of h] h(2) by simp
    also have "drop l (take (Suc r) (map (\<lambda>i. h ! i) [0..<n])) = map (\<lambda>i. h ! i) [l..<Suc r]"
      using r(1) by (rule slice_map_upt)
    also have "\<dots> = map (\<lambda>k. bucket_count ratings (int k * binsize) ((int k + 1) * binsize))
        [l..<Suc r]"
      using r(1) bucket by (intro map_cong) auto
    finally show ?thesis .
  qed
  have bl: "bar_label res
      = map (\<lambda>k. (int k * binsize,
                   py_round (100 * of_int (bucket_count ratings 0 (int k * binsize))
                              / of_int (bucket_count ratings 0 3900)))) [l..<Suc r]"
  proof -
    have "bar_label res = drop l (take (Suc r) (zip x c))"
      using py_slice_nat[of r "zip x c" l] r(1) len_x c(2) by (simp add: res_def)
    also have "\<dots> = map (\<lambda>i. (int i * binsize, c ! i)) [l..<Suc r]"
      unfolding label using r(1) by (rule slice_map_upt)
    also have "\<dots> = map (\<lambda>k. (int k * binsize,
                   py_round (100 * of_int (bucket_count ratings 0 (int k * binsize))
                              / of_int (bucket_count ratings 0 3900)))) [l..<Suc r]"
      using r(1) cent by (intro map_cong) auto
    finally show ?thesis .
  qed
  have upper_edge: "int (Suc r) * binsize \<le> 3900"
  proof -
    have "int (Suc r) \<le> int n" using r(1) by simp
    then have "int (Suc r) * binsize \<le> int n * binsize"
      using b(1) by (intro mult_right_mono) simp_all
    then show ?thesis using nb by simp
  qed
  have zero_left: "bucket_count ratings 0 (int l * binsize) = 0"
  proof -
    have "\<forall>v\<in>set (take l h). v = 0"
      using l(1,3) h(2) by (auto simp: in_set_conv_nth)
    then have "sum_list (take l h) = 0" by (rule sum_list_all_zero)
    then show ?thesis using prefix[of l] l(1) by simp
  qed
  have zero_right: "bucket_count ratings (int (Suc r) * binsize) 3900 = 0"
  proof -
    have "\<forall>v\<in>set (drop (Suc r) h). v = 0"
      using r(3) h(2) by (auto simp: in_set_conv_nth)
    then have "sum_list (drop (Suc r) h) = 0" by (rule sum_list_all_zero)
    moreover have "sum_list h = sum_list (take (Suc r) h) + sum_list (drop (Suc r) h)"
      by (metis append_take_drop_id sum_list.append)
    ultimately have "bucket_count ratings 0 3900 = bucket_count ratings 0 (int (Suc r) * binsize)"
      using total prefix[of "Suc r"] r(1) by simp
    moreover have "bucket_count ratings 0 3900 = bucket_count ratings 0 (int (Suc r) * binsize)
        + bucket_count ratings (int (Suc r) * binsize) 3900"
      using upper_edge b(1) by (intro bucket_count_split) simp_all
    ultimately show ?thesis by simp
  qed
  have "0 < bucket_count ratings 0 3900" using users_pos total by simp
  then show ?thesis using run lr upper_edge bx bh bl zero_left zero_right by blast
qed


lemma example_ranks_colors:
  "int (length (hist_colors example_ranks 0 (100 * (39 * 100 div 100)) 100)) = 39 * 100 div 100"
  by (simp add: hist_colors_def example_ranks_def py_range_def)

lemma example_run:
  "rating_hist example_ranks [1000, 1050, 1100, 1100, 1500, - 5] ''normal'' 100 = Inr example_plot"
  by code_simp


lemma bucket_count_empty: "bucket_count vs lower lower = 0"
  by (simp add: bucket_count_def)

lemma bucket_count_zeroD:
  "bucket_count vs lower upper = 0 \<Longrightarrow> v \<in> set vs \<Longrightarrow> lower \<le> v \<Longrightarrow> upper \<le> v"
  by (fastforce simp: bucket_count_def filter_empty_conv)

lemma sum_buckets_range:
  assumes "0 < b" "l \<le> m"
  shows "sum_list (map (\<lambda>k. bucket_count vs (int k * b) ((int k + 1) * b)) [l..<m])
    = bucket_count vs (int l * b) (int m * b)"
  using assms(2)
proof (induction m rule: dec_induct)
  case base
  then show ?case by (simp add: bucket_count_empty)
next
  case (step m)
  have "int l * b \<le> int m * b" using step.hyps(1) assms(1) by (simp add: mult_right_mono)
  moreover have "int m * b \<le> (int m + 1) * b" using assms(1) by (simp add: algebra_simps)
  ultimately have "bucket_count vs (int l * b) ((int m + 1) * b)
      = bucket_count vs (int l * b) (int m * b) + bucket_count vs (int m * b) ((int m + 1) * b)"
    by (rule bucket_count_split)
  then show ?case using step by (simp add: algebra_simps)
qed

lemma height_loop_in_range:
  assumes "0 < b" "height_loop b h rs = Inr h'" "\<forall>r\<in>set rs. 0 \<le> r"
  shows "\<forall>r\<in>set rs. r < int (length h) * b"
  using assms(2,3)
proof (induction rs arbitrary: h)
  case Nil
  then show ?case by simp
next
  case (Cons r rs)
  have nonneg: "0 \<le> r div b" using assms(1) Cons.prems(2) by (simp add: pos_imp_zdiv_nonneg_iff)
  from Cons.prems(1) obtain h1 where h1: "height_step b h r = Inr h1"
    "height_loop b h1 rs = Inr h'"
    by (auto split: sum.splits)
  from h1(1) nonneg have idx: "r div b < int (length h)" and len: "length h1 = length h"
    by (auto simp: height_step_def py_get_def py_set_def Let_def split: if_splits sum.splits)
  have "r < (r div b + 1) * b"
    using div_eq_bucket[OF assms(1), of r "r div b"] by simp
  moreover have "(r div b + 1) * b \<le> int (length h) * b"
    using idx assms(1) by (intro mult_right_mono) simp_all
  ultimately have "r < int (length h) * b" by linarith
  moreover have "\<forall>r\<in>set rs. r < int (length h1) * b"
    using Cons.IH[OF h1(2)] Cons.prems(2) by simp
  ultimately show ?case using len by simp
qed

lemma rating_hist_Inr_conditions:
  assumes "rating_hist RATED_RANKS ratings mode binsize = Inr res"
  shows "mode = ''log'' \<or> mode = ''normal''"
    and "0 < binsize" and "100 mod binsize = 0"
    and "int (length (hist_colors RATED_RANKS 0 (binsize * (39 * 100 div binsize)) binsize))
        = 39 * 100 div binsize"
    and "\<exists>v\<in>set ratings. 0 \<le> v"
    and "\<forall>v\<in>set ratings. v < 3900"
proof -
  define rs where "rs = filter (\<lambda>r. 0 \<le> r) ratings"
  show mode: "mode = ''log'' \<or> mode = ''normal''"
    using assms by (auto simp: rating_hist_def split: if_splits)
  have rs: "rs \<noteq> []"
    using assms mode by (auto simp: rating_hist_def rs_def Let_def split: if_splits)
  then show "\<exists>v\<in>set ratings. 0 \<le> v" by (auto simp: rs_def filter_empty_conv)
  have b0: "binsize \<noteq> 0"
    using assms mode rs by (auto simp: rating_hist_def rs_def Let_def split: if_splits)
  show b100: "100 mod binsize = 0"
    using assms mode rs b0 by (auto simp: rating_hist_def rs_def Let_def split: if_splits)
  show colors: "int (length (hist_colors RATED_RANKS 0 (binsize * (39 * 100 div binsize)) binsize))
        = 39 * 100 div binsize"
    using assms mode rs b0 b100
    by (auto simp: rating_hist_def rs_def Let_def split: if_splits)
  show pos: "0 < binsize"
  proof (rule ccontr)
    assume "\<not> 0 < binsize"
    then have "binsize < 0" using b0 by simp
    then have "(3900::int) div binsize < 0" by (simp add: neg_imp_zdiv_neg_iff)
    then show False using colors by simp
  qed
  have "binsize dvd 100" using b100 by (simp add: dvd_eq_mod_eq_0)
  then have "binsize dvd 3900" by (rule dvd_trans) simp
  then have span: "binsize * (3900 div binsize) = 3900" by simp
  have bins_pos: "0 < 3900 div binsize"
  proof (rule ccontr)
    assume "\<not> 0 < 3900 div binsize"
    then have "binsize * (3900 div binsize) \<le> 0" using pos by (simp add: mult_le_0_iff)
    then show False using span by simp
  qed
  obtain h where h: "height_loop binsize (replicate (nat (3900 div binsize)) 0) rs = Inr h"
    using assms mode rs b0 b100 colors
    by (auto simp: rating_hist_def rs_def Let_def split: if_splits sum.splits)
  have "\<forall>r\<in>set rs. r < int (length (replicate (nat (3900 div binsize)) (0::int))) * binsize"
    using pos h by (rule height_loop_in_range) (simp add: rs_def)
  then have "\<forall>r\<in>set rs. r < 3900" using span bins_pos by (simp add: mult.commute)
  then show "\<forall>v\<in>set ratings. v < 3900" by (fastforce simp: rs_def)
qed


text \<open>
  C7, as amended: for a mode of log or normal, a positive bin width dividing 100, a rank table
  that passes the colour assertion, and a sequence of integer values with at least one value
  at or above \<open>low = 0\<close> and every value below \<open>high = 39 \<cdot> 100\<close>, the bucketizer raises
  nothing; the displayed buckets are consecutive buckets of the grid, bucket \<open>i\<close> starting at
  \<open>low + i \<cdot> binsize\<close>, inside \<open>[low, high)\<close>; each displayed bucket \<open>[x, x + binsize)\<close> holds
  the number of values in that interval; every value \<open>v\<close> with \<open>low \<le> v\<close> lies in one displayed bucket; the values below
  \<open>low\<close> are dropped without error; and the sum of all bucket counts is the number of input
  values within \<open>[low, high)\<close>.
\<close>

theorem rating_hist_counts:
  assumes "mode = ''log'' \<or> mode = ''normal''"
    and "0 < binsize" and "100 mod binsize = 0"
    and "int (length (hist_colors RATED_RANKS 0 (binsize * (39 * 100 div binsize)) binsize))
        = 39 * 100 div binsize"
    and "\<exists>v\<in>set ratings. 0 \<le> v"
    and "\<forall>v\<in>set ratings. v < 3900"
  shows "\<exists>res. rating_hist RATED_RANKS ratings mode binsize = Inr res \<and>
      (\<exists>l r. l \<le> r \<and> int (Suc r) * binsize \<le> 3900 \<and>
         bar_x res = map (\<lambda>i. 0 + int i * binsize) [l..<Suc r]) \<and>
      length (bar_height res) = length (bar_x res) \<and>
      (\<forall>j<length (bar_x res).
         bar_height res ! j = bucket_count ratings (bar_x res ! j) (bar_x res ! j + binsize)) \<and>
      (\<forall>v\<in>set ratings. 0 \<le> v \<longrightarrow>
         (\<exists>j<length (bar_x res). bar_x res ! j \<le> v \<and> v < bar_x res ! j + binsize)) \<and>
      sum_list (bar_height res) = bucket_count ratings 0 3900"
proof -
  from rating_hist_run[OF assms] obtain res l r where run:
    "rating_hist RATED_RANKS ratings mode binsize = Inr res" "l \<le> r"
    "int (Suc r) * binsize \<le> 3900"
    "bar_x res = map (\<lambda>k. int k * binsize) [l..<Suc r]"
    "bar_height res
       = map (\<lambda>k. bucket_count ratings (int k * binsize) ((int k + 1) * binsize)) [l..<Suc r]"
    "bucket_count ratings 0 (int l * binsize) = 0"
    "bucket_count ratings (int (Suc r) * binsize) 3900 = 0"
    by blast
  have b: "0 < binsize" by (rule assms(2))
  have len: "length (bar_height res) = length (bar_x res)" using run(4,5) by simp
  have each: "\<forall>j<length (bar_x res).
      bar_height res ! j = bucket_count ratings (bar_x res ! j) (bar_x res ! j + binsize)"
    using run(4,5) by (simp add: algebra_simps)
  have cover: "\<exists>j<length (bar_x res). bar_x res ! j \<le> v \<and> v < bar_x res ! j + binsize"
    if v: "v \<in> set ratings" "0 \<le> v" for v
  proof -
    define k where "k = nat (v div binsize)"
    have nonneg: "0 \<le> v div binsize" using b v(2) by (simp add: pos_imp_zdiv_nonneg_iff)
    then have k: "int k = v div binsize" by (simp add: k_def)
    have in_k: "int k * binsize \<le> v" "v < (int k + 1) * binsize"
      using div_eq_bucket[OF b, of v "int k"] k by simp_all
    have lo: "int l * binsize \<le> v" using bucket_count_zeroD[OF run(6) v(1) v(2)] .
    have "v < 3900" using assms(6) v(1) by simp
    have hi: "v < int (Suc r) * binsize"
    proof (rule ccontr)
      assume "\<not> v < int (Suc r) * binsize"
      then have "int (Suc r) * binsize \<le> v" by simp
      then have "3900 \<le> v" using bucket_count_zeroD[OF run(7) v(1)] by simp
      then show False using \<open>v < 3900\<close> by simp
    qed
    have lk: "l \<le> k"
    proof (rule ccontr)
      assume "\<not> l \<le> k"
      then have "int k + 1 \<le> int l" by simp
      then have "(int k + 1) * binsize \<le> int l * binsize"
        using b by (intro mult_right_mono) simp_all
      then show False using in_k(2) lo by linarith
    qed
    have kr: "k \<le> r"
    proof (rule ccontr)
      assume "\<not> k \<le> r"
      then have "int (Suc r) \<le> int k" by simp
      then have "int (Suc r) * binsize \<le> int k * binsize"
        using b by (intro mult_right_mono) simp_all
      then show False using in_k(1) hi by linarith
    qed
    have shift: "l + (k - l) = k" using lk by simp
    then have "l + (k - l) < Suc r" using kr by simp
    then have "[l..<Suc r] ! (k - l) = l + (k - l)" by (rule nth_upt)
    then have at_k: "[l..<Suc r] ! (k - l) = k" using shift by (simp only:)
    have in_list: "k - l < length [l..<Suc r]" using lk kr by (simp del: upt_Suc)
    then have "map (\<lambda>k. int k * binsize) [l..<Suc r] ! (k - l) = int k * binsize"
      using at_k by (simp only: nth_map)
    moreover have "k - l < length (map (\<lambda>k. int k * binsize) [l..<Suc r])"
      using in_list by (simp only: length_map)
    ultimately have "k - l < length (bar_x res)" "bar_x res ! (k - l) = int k * binsize"
      unfolding run(4) by blast+
    then show ?thesis using in_k by (auto simp: algebra_simps)
  qed
  have "sum_list (bar_height res) = bucket_count ratings (int l * binsize) (int (Suc r) * binsize)"
    unfolding run(5) using b run(2) by (intro sum_buckets_range) simp_all
  moreover have "bucket_count ratings 0 (int (Suc r) * binsize)
      = bucket_count ratings 0 (int l * binsize)
        + bucket_count ratings (int l * binsize) (int (Suc r) * binsize)"
    using b run(2) by (intro bucket_count_split) (simp_all add: mult_right_mono)
  moreover have "bucket_count ratings 0 3900
      = bucket_count ratings 0 (int (Suc r) * binsize)
        + bucket_count ratings (int (Suc r) * binsize) 3900"
    using b run(3) by (intro bucket_count_split) simp_all
  ultimately have total: "sum_list (bar_height res) = bucket_count ratings 0 3900"
    using run(6,7) by simp
  have grid: "\<exists>l r. l \<le> r \<and> int (Suc r) * binsize \<le> 3900 \<and>
      bar_x res = map (\<lambda>i. 0 + int i * binsize) [l..<Suc r]"
    using run(2,3,4) by (intro exI[of _ l] exI[of _ r]) (simp del: upt_Suc)
  show ?thesis using run(1) grid len each cover total by blast
qed

theorem rating_hist_counts_witness:
  "(''normal'' = ''log'' \<or> ''normal'' = ''normal'') \<and> (0::int) < 100 \<and> (100::int) mod 100 = 0 \<and>
   int (length (hist_colors example_ranks 0 (100 * (39 * 100 div 100)) 100)) = 39 * 100 div 100 \<and>
   (\<exists>v\<in>set [1000, 1050, 1100, 1100, 1500, - 5 :: int]. 0 \<le> v) \<and>
   list_all (\<lambda>v. v < 3900) [1000, 1050, 1100, 1100, 1500, - 5 :: int] \<and>
   (\<exists>res. rating_hist example_ranks [1000, 1050, 1100, 1100, 1500, - 5] ''normal'' 100 = Inr res \<and>
      (\<exists>l r. l \<le> r \<and> int (Suc r) * 100 \<le> 3900 \<and>
         bar_x res = map (\<lambda>i. 0 + int i * 100) [l..<Suc r]) \<and>
      length (bar_height res) = length (bar_x res) \<and>
      (\<forall>j<length (bar_x res).
         bar_height res ! j
           = bucket_count [1000, 1050, 1100, 1100, 1500, - 5] (bar_x res ! j) (bar_x res ! j + 100)) \<and>
      (\<forall>v\<in>set [1000, 1050, 1100, 1100, 1500, - 5]. 0 \<le> v \<longrightarrow>
         (\<exists>j<length (bar_x res). bar_x res ! j \<le> v \<and> v < bar_x res ! j + 100)) \<and>
      sum_list (bar_height res) = bucket_count [1000, 1050, 1100, 1100, 1500, - 5] 0 3900) \<and>
   bucket_count [1000, 1050, 1100, 1100, 1500, - 5] 0 3900 = 5"
proof -
  have hyps: "''normal'' = ''log'' \<or> ''normal'' = ''normal''" "(0::int) < 100"
    "(100::int) mod 100 = 0"
    "\<exists>v\<in>set [1000, 1050, 1100, 1100, 1500, - 5 :: int]. 0 \<le> v"
    "\<forall>v\<in>set [1000, 1050, 1100, 1100, 1500, - 5 :: int]. v < 3900"
    by simp_all
  have all_below: "list_all (\<lambda>v. v < 3900) [1000, 1050, 1100, 1100, 1500, - 5 :: int]"
    by simp
  have total: "bucket_count [1000, 1050, 1100, 1100, 1500, - 5] 0 3900 = 5"
    by (simp add: bucket_count_def)
  note run = rating_hist_counts[OF hyps(1,2,3) example_ranks_colors hyps(4,5)]
  show ?thesis
    using hyps(1,2,3) example_ranks_colors hyps(4) all_below run total
    by (intro conjI)
qed

text \<open>
  C7 as stated fails: a value at or above \<open>high\<close> is not dropped silently, it raises
  \<open>IndexError\<close> at \<^verbatim>\<open>height[r // binsize]\<close>.
\<close>

theorem rating_hist_overflow_counterexample:
  "rating_hist example_ranks [1500, 3900] ''normal'' 100 = Inl IndexError"
  by code_simp

text \<open>
  C8: whenever the bucketizer returns, every displayed bucket carries a label that pairs the
  bucket's lower boundary with the cumulative percentage \<open>round(100 \<cdot> running / total)\<close>, where
  \<open>running\<close> is the number of counted values below that boundary and \<open>total\<close> the number of
  counted values (those in \<open>[0, 39 \<cdot> 100)\<close>); \<open>round\<close> is Python's, on the exact quotient.
\<close>

theorem rating_hist_cumulative_percent:
  assumes "rating_hist RATED_RANKS ratings mode binsize = Inr res"
  shows "map fst (bar_label res) = bar_x res \<and>
    (\<forall>j<length (bar_label res).
       snd (bar_label res ! j)
         = py_round (100 * of_int (bucket_count ratings 0 (bar_x res ! j))
                      / of_int (bucket_count ratings 0 3900)))"
proof -
  from rating_hist_run[OF rating_hist_Inr_conditions[OF assms]] obtain res' l r where run:
    "rating_hist RATED_RANKS ratings mode binsize = Inr res'"
    "bar_x res' = map (\<lambda>k. int k * binsize) [l..<Suc r]"
    "bar_label res'
        = map (\<lambda>k. (int k * binsize,
                     py_round (100 * of_int (bucket_count ratings 0 (int k * binsize))
                                / of_int (bucket_count ratings 0 3900)))) [l..<Suc r]"
    by blast
  have "res' = res" using run(1) assms by simp
  then show ?thesis using run(2,3) by (simp add: comp_def)
qed

theorem rating_hist_cumulative_percent_witness:
  "rating_hist example_ranks [1000, 1050, 1100, 1100, 1500, - 5] ''normal'' 100 = Inr example_plot \<and>
   map fst (bar_label example_plot) = bar_x example_plot \<and>
   snd (bar_label example_plot ! 1)
     = py_round (100 * of_int (bucket_count [1000, 1050, 1100, 1100, 1500, - 5] 0
                                 (bar_x example_plot ! 1))
                  / of_int (bucket_count [1000, 1050, 1100, 1100, 1500, - 5] 0 3900))"
proof -
  have "(1::nat) < length (bar_label example_plot)" by (simp add: example_plot_def)
  then show ?thesis
    using example_run rating_hist_cumulative_percent[OF example_run] by blast
qed

end
